theory Spec2Isabelle
  imports Complex_Main "HOL-Library.Word"
begin

section \<open>Data model of option\_pricing.h\<close>

text \<open>
  A value of the C type \<open>double\<close> is a \<^typ>\<open>real\<close>. In the sampler the operations
  whose result the loop condition compares (the division, the subtraction, the two products
  and the sum) are rounded to double precision by \<open>double_round\<close>, because there the
  rounding decides whether the loop runs again. The value the sampler returns, the payoffs
  and the sums are computed with the exact real operations: overflow to infinity and NaN
  are outside the embedding. The one place where the source can reach a non-finite value by
  its own integer arithmetic, the final division by the adjusted simulation count, is
  written out (\<open>double_div\<close> below). The C type \<open>int\<close> is read as \<^typ>\<open>int\<close>: the simulation
  counts of the program lie between 0 and 10000000 and its loop counters between 0 and
  the worker count, so no operation on them wraps.

  The generator \<open>pcg32_random_t\<close> with \<open>pcg32_random_r\<close> and \<open>pcg32_srandom_r\<close> comes
  from the header \<open>pcg_basic.h\<close>. The state is a type parameter \<open>'g\<close> here, and the two
  operations are parameters \<open>nxt\<close> and \<open>srandom\<close> of the functions that call them: every
  theorem holds for any generator.
\<close>

type_synonym uint32_t = "32 word"
type_synonym uint64_t = "64 word"

record 'g pricing_params_t =
  num_sims :: int
  S :: real
  K :: real
  r :: real
  v :: real
  T :: real
  rng :: 'g
  call_payoff_sum :: real
  put_payoff_sum :: real

text \<open>The macro \<open>MAX(a, b) ((a) > (b) ? (a) : (b))\<close> (\<open>MAX\<close> itself is HOL syntax).\<close>

definition MAX_macro :: "real \<Rightarrow> real \<Rightarrow> real" where
  "MAX_macro a b = (if a > b then a else b)"

definition UINT32_MAX :: uint32_t where
  "UINT32_MAX = 4294967295"

section \<open>Double arithmetic\<close>

text \<open>
  Rounding to the nearest integer, a tie going to the even one; and rounding of a real to
  the nearest number with 53 significant bits, a tie going to the even significand, as the
  default rounding of IEEE 754 binary64 does. The exponent is not bounded: the numbers
  rounded in the sampler lie between \<open>2^-66\<close> and 4 in absolute value, far from the
  subnormal range and from overflow.
\<close>

definition round_even :: "real \<Rightarrow> int" where
  "round_even z =
     (let f = \<lfloor>z\<rfloor>
      in if z - of_int f < 1 / 2 then f
         else if 1 / 2 < z - of_int f then f + 1
         else if even f then f else f + 1)"

definition double_round :: "real \<Rightarrow> real" where
  "double_round x =
     (if x = 0 then 0
      else let e = \<lfloor>log 2 \<bar>x\<bar>\<rfloor> - 52
           in of_int (round_even (x / 2 powr of_int e)) * 2 powr of_int e)"

section \<open>gaussian\_box\_muller\<close>

text \<open>
  The expression \<open>2.0 * pcg32_random_r(rng) / (double)UINT32_MAX - 1\<close> at one draw. The
  conversions of the draw and of \<open>UINT32_MAX\<close> and the product \<open>2.0 * u\<close> are exact in
  double precision (integers below \<open>2^53\<close>); the quotient and the difference are rounded.
\<close>

definition uniform_pm1 :: "uint32_t \<Rightarrow> real" where
  "uniform_pm1 u =
     double_round (double_round (2 * real (unat u) / real (unat UINT32_MAX)) - 1)"

text \<open>
  The expression \<open>x*x + y*y\<close>: both products and the sum are rounded, each operation on
  its own (no fused multiply-add).
\<close>

definition sum_sq :: "real \<Rightarrow> real \<Rightarrow> real" where
  "sum_sq x y = double_round (double_round (x * x) + double_round (y * y))"

text \<open>The condition of the \<open>do ... while\<close> loop: the loop runs again when it holds.\<close>

definition loop_again :: "real \<Rightarrow> bool" where
  "loop_again euclid_sq \<longleftrightarrow> euclid_sq \<ge> 1"

text \<open>The value returned once the loop is left, with the exact real operations.\<close>

definition box_muller_value :: "real \<Rightarrow> real \<Rightarrow> real" where
  "box_muller_value x euclid_sq = x * sqrt (- 2 * ln euclid_sq / euclid_sq)"

text \<open>
  The rejection loop has no bound, so the sampler is a partial function: \<open>None\<close> is
  a run that never leaves the loop. The result carries the advanced generator state.
\<close>

partial_function (option) gaussian_box_muller ::
  "('g \<Rightarrow> uint32_t \<times> 'g) \<Rightarrow> 'g \<Rightarrow> (real \<times> 'g) option" where
  "gaussian_box_muller nxt g =
     (case nxt g of (u1, g1) \<Rightarrow>
      case nxt g1 of (u2, g2) \<Rightarrow>
        let x = uniform_pm1 u1;
            y = uniform_pm1 u2;
            euclid_sq = sum_sq x y
        in if loop_again euclid_sq then gaussian_box_muller nxt g2
           else Some (box_muller_value x euclid_sq, g2))"

section \<open>The payoff loops\<close>

function call_loop ::
  "('g \<Rightarrow> uint32_t \<times> 'g) \<Rightarrow> real \<Rightarrow> int \<Rightarrow> real \<Rightarrow> 'g pricing_params_t
     \<Rightarrow> (real \<times> 'g pricing_params_t) option" where
  "call_loop nxt S_adjust i payoff_sum params =
     (if i < num_sims params then
        (case gaussian_box_muller nxt (rng params) of
           None \<Rightarrow> None
         | Some (gauss_bm, g') \<Rightarrow>
             let params' = params\<lparr>rng := g'\<rparr>;
                 S_cur = S_adjust * exp (sqrt (v params' * v params' * T params') * gauss_bm)
             in call_loop nxt S_adjust (i + 1) (payoff_sum + MAX_macro (S_cur - K params') 0) params')
      else Some (payoff_sum, params))"
  by pat_completeness auto
termination
  by (relation "measure (\<lambda>(nxt, S_adjust, i, payoff_sum, params). nat (num_sims params - i))")
    auto

function put_loop ::
  "('g \<Rightarrow> uint32_t \<times> 'g) \<Rightarrow> real \<Rightarrow> int \<Rightarrow> real \<Rightarrow> 'g pricing_params_t
     \<Rightarrow> (real \<times> 'g pricing_params_t) option" where
  "put_loop nxt S_adjust i payoff_sum params =
     (if i < num_sims params then
        (case gaussian_box_muller nxt (rng params) of
           None \<Rightarrow> None
         | Some (gauss_bm, g') \<Rightarrow>
             let params' = params\<lparr>rng := g'\<rparr>;
                 S_cur = S_adjust * exp (sqrt (v params' * v params' * T params') * gauss_bm)
             in put_loop nxt S_adjust (i + 1) (payoff_sum + MAX_macro (K params' - S_cur) 0) params')
      else Some (payoff_sum, params))"
  by pat_completeness auto
termination
  by (relation "measure (\<lambda>(nxt, S_adjust, i, payoff_sum, params). nat (num_sims params - i))")
    auto

text \<open>The loop equations are unfolded by hand, one pass at a time.\<close>

declare call_loop.simps [simp del] put_loop.simps [simp del]

definition monte_carlo_call_payoff_sum ::
  "('g \<Rightarrow> uint32_t \<times> 'g) \<Rightarrow> 'g pricing_params_t \<Rightarrow> (real \<times> 'g pricing_params_t) option" where
  "monte_carlo_call_payoff_sum nxt params =
     (let S_adjust = S params * exp (T params * (r params - 0.5 * v params * v params))
      in call_loop nxt S_adjust 0 0 params)"

definition monte_carlo_put_payoff_sum ::
  "('g \<Rightarrow> uint32_t \<times> 'g) \<Rightarrow> 'g pricing_params_t \<Rightarrow> (real \<times> 'g pricing_params_t) option" where
  "monte_carlo_put_payoff_sum nxt params =
     (let S_adjust = S params * exp (T params * (r params - 0.5 * v params * v params))
      in put_loop nxt S_adjust 0 0 params)"

text \<open>
  \<open>thread_pricing_wrapper\<close> works on the record behind its argument pointer: the call
  loop leaves its generator state in the record, the call sum is stored, and the put loop
  starts from that record.
\<close>

definition thread_pricing_wrapper ::
  "('g \<Rightarrow> uint32_t \<times> 'g) \<Rightarrow> 'g pricing_params_t \<Rightarrow> 'g pricing_params_t option" where
  "thread_pricing_wrapper nxt params =
     (case monte_carlo_call_payoff_sum nxt params of
        None \<Rightarrow> None
      | Some (c, params1) \<Rightarrow>
          (case monte_carlo_put_payoff_sum nxt (params1\<lparr>call_payoff_sum := c\<rparr>) of
             None \<Rightarrow> None
           | Some (p, params2) \<Rightarrow> Some (params2\<lparr>put_payoff_sum := p\<rparr>)))"

section \<open>main\<close>

text \<open>C's \<open>/\<close> and \<open>%\<close> on \<open>int\<close> truncate towards zero.\<close>

definition c_div :: "int \<Rightarrow> int \<Rightarrow> int" where
  "c_div a b = sgn a * sgn b * (\<bar>a\<bar> div \<bar>b\<bar>)"

definition c_mod :: "int \<Rightarrow> int \<Rightarrow> int" where
  "c_mod a b = a - b * c_div a b"

text \<open>
  The locals of \<open>main\<close> that the rest of the run reads. \<open>main\<close> sets the requested
  count and the market parameters from literals; \<open>main_locals\<close> takes them as arguments
  (\<open>requested\<close>, \<open>S0\<close>, \<open>K0\<close>, \<open>r0\<close>, \<open>v0\<close>, \<open>T0\<close>), together with the two values
  read from the environment: \<open>nprocs\<close>, the result of \<open>sysconf\<close>, and \<open>seed\<close>, the
  result of \<open>time\<close>. \<open>main\<close> below fixes the literals.
\<close>

record locals =
  num_threads :: int
  base_seed :: uint64_t
  total_sims :: int   \<comment> \<open>the local \<open>num_sims\<close> of \<open>main\<close>, after the adjustment\<close>
  S_loc :: real
  K_loc :: real
  r_loc :: real
  v_loc :: real
  T_loc :: real

definition main_locals ::
  "int \<Rightarrow> real \<Rightarrow> real \<Rightarrow> real \<Rightarrow> real \<Rightarrow> real \<Rightarrow> int \<Rightarrow> uint64_t \<Rightarrow> locals" where
  "main_locals requested S0 K0 r0 v0 T0 nprocs seed =
     (let num_threads0 = (if nprocs < 1 then 1 else nprocs);
          num_sims0 = requested;
          num_sims1 = num_sims0 - c_mod num_sims0 num_threads0
      in \<lparr>num_threads = num_threads0, base_seed = seed, total_sims = num_sims1,
          S_loc = S0, K_loc = K0, r_loc = r0, v_loc = v0, T_loc = T0\<rparr>)"

text \<open>
  The record written to \<open>thread_params[i]\<close> in the create loop: the compound literal,
  then \<open>pcg32_srandom_r(&thread_params[i].rng, base_seed + (uint64_t)i, (uint64_t)i)\<close>.
\<close>

definition init_params ::
  "(uint64_t \<Rightarrow> uint64_t \<Rightarrow> 'g) \<Rightarrow> locals \<Rightarrow> int \<Rightarrow> 'g pricing_params_t" where
  "init_params srandom L i =
     \<lparr>num_sims = c_div (total_sims L) (num_threads L),
      S = S_loc L, K = K_loc L, r = r_loc L, v = v_loc L, T = T_loc L,
      rng = srandom (base_seed L + word_of_int i) (word_of_int i),
      call_payoff_sum = 0, put_payoff_sum = 0\<rparr>"

text \<open>The summing loop over \<open>thread_params\<close>, with its two accumulators.\<close>

fun sum_payoffs :: "real \<Rightarrow> real \<Rightarrow> 'g pricing_params_t list \<Rightarrow> real \<times> real" where
  "sum_payoffs total_call_payoff_sum total_put_payoff_sum [] =
     (total_call_payoff_sum, total_put_payoff_sum)"
| "sum_payoffs total_call_payoff_sum total_put_payoff_sum (p # ps) =
     sum_payoffs (total_call_payoff_sum + call_payoff_sum p)
       (total_put_payoff_sum + put_payoff_sum p) ps"

text \<open>
  A quotient of doubles is finite only for a divisor other than zero: \<open>x / 0.0\<close> is an
  infinity or NaN, and stays one when multiplied by the discount factor, which is
  positive.
\<close>

datatype double_result = Finite real | NonFinite

definition double_div :: "real \<Rightarrow> real \<Rightarrow> double_result" where
  "double_div a b = (if b = 0 then NonFinite else Finite (a / b))"

definition times_double :: "double_result \<Rightarrow> real \<Rightarrow> double_result" where
  "times_double q c = (case q of Finite x \<Rightarrow> Finite (x * c) | NonFinite \<Rightarrow> NonFinite)"

text \<open>The part of \<open>main\<close> after the join loop: the pair (\<open>call_price\<close>, \<open>put_price\<close>).\<close>

definition final_prices ::
  "locals \<Rightarrow> 'g pricing_params_t list \<Rightarrow> double_result \<times> double_result" where
  "final_prices L thread_params =
     (case sum_payoffs 0 0 thread_params of
        (total_call_payoff_sum, total_put_payoff_sum) \<Rightarrow>
          (times_double (double_div total_call_payoff_sum (real_of_int (total_sims L)))
             (exp (- r_loc L * T_loc L)),
           times_double (double_div total_put_payoff_sum (real_of_int (total_sims L)))
             (exp (- r_loc L * T_loc L))))"

subsection \<open>The threads, one after the other\<close>

definition thread_params_init ::
  "(uint64_t \<Rightarrow> uint64_t \<Rightarrow> 'g) \<Rightarrow> locals \<Rightarrow> 'g pricing_params_t list" where
  "thread_params_init srandom L =
     map (\<lambda>i. init_params srandom L (int i)) [0..<nat (num_threads L)]"

text \<open>
  \<open>main_body\<close> runs the workers in index order, each to its end, and then the part after
  the join; \<open>None\<close> when a worker never returns. The interleaved runs follow below.
\<close>

definition main_body ::
  "('g \<Rightarrow> uint32_t \<times> 'g) \<Rightarrow> (uint64_t \<Rightarrow> uint64_t \<Rightarrow> 'g) \<Rightarrow>
     int \<Rightarrow> real \<Rightarrow> real \<Rightarrow> real \<Rightarrow> real \<Rightarrow> real \<Rightarrow> int \<Rightarrow> uint64_t \<Rightarrow>
     (double_result \<times> double_result) option" where
  "main_body nxt srandom requested S0 K0 r0 v0 T0 nprocs seed =
     (let L = main_locals requested S0 K0 r0 v0 T0 nprocs seed
      in map_option (final_prices L)
           (those (map (thread_pricing_wrapper nxt) (thread_params_init srandom L))))"


subsection \<open>The threads, interleaved\<close>

text \<open>
  A configuration of the run between the start of the create loop and the end of the join
  loop: \<open>created\<close> is the loop variable of the create loop, \<open>cells\<close> the array
  \<open>thread_params\<close> (a cell is \<open>None\<close> until the loop has written it) and \<open>pc\<close> says
  where each created thread stands in \<open>thread_pricing_wrapper\<close>.
\<close>

datatype phase = Started | CallDone | Finished

record 'g config =
  created :: nat
  cells :: "nat \<Rightarrow> 'g pricing_params_t option"
  pc :: "nat \<Rightarrow> phase option"

definition init_config :: "'g config" where
  "init_config = \<lparr>created = 0, cells = (\<lambda>i. None), pc = (\<lambda>i. None)\<rparr>"

text \<open>One pass of the create loop: write the cell, seed its generator, start the thread.\<close>

definition create_step ::
  "(uint64_t \<Rightarrow> uint64_t \<Rightarrow> 'g) \<Rightarrow> locals \<Rightarrow> 'g config \<Rightarrow> 'g config option" where
  "create_step srandom L c =
     (if int (created c) < num_threads L then
        Some (c\<lparr>created := Suc (created c),
                cells := (cells c)(created c \<mapsto> init_params srandom L (int (created c))),
                pc := (pc c)(created c \<mapsto> Started)\<rparr>)
      else None)"

text \<open>
  One statement of thread \<open>i\<close>: it works through the pointer to its own cell. There is
  no step when the thread does not exist, has returned, or its loop never ends.
\<close>

definition thread_step ::
  "('g \<Rightarrow> uint32_t \<times> 'g) \<Rightarrow> nat \<Rightarrow> 'g config \<Rightarrow> 'g config option" where
  "thread_step nxt i c =
     (case (pc c i, cells c i) of
        (Some Started, Some params) \<Rightarrow>
          (case monte_carlo_call_payoff_sum nxt params of
             None \<Rightarrow> None
           | Some (s, params1) \<Rightarrow>
               Some (c\<lparr>cells := (cells c)(i \<mapsto> params1\<lparr>call_payoff_sum := s\<rparr>),
                       pc := (pc c)(i \<mapsto> CallDone)\<rparr>))
      | (Some CallDone, Some params) \<Rightarrow>
          (case monte_carlo_put_payoff_sum nxt params of
             None \<Rightarrow> None
           | Some (s, params1) \<Rightarrow>
               Some (c\<lparr>cells := (cells c)(i \<mapsto> params1\<lparr>put_payoff_sum := s\<rparr>),
                       pc := (pc c)(i \<mapsto> Finished)\<rparr>))
      | _ \<Rightarrow> None)"

text \<open>A schedule picks, at each moment, the create loop or one of the threads.\<close>

inductive step ::
  "('g \<Rightarrow> uint32_t \<times> 'g) \<Rightarrow> (uint64_t \<Rightarrow> uint64_t \<Rightarrow> 'g) \<Rightarrow> locals \<Rightarrow>
     'g config \<Rightarrow> 'g config \<Rightarrow> bool"
  for nxt srandom L where
  step_create: "create_step srandom L c = Some c' \<Longrightarrow> step nxt srandom L c c'"
| step_thread: "thread_step nxt i c = Some c' \<Longrightarrow> step nxt srandom L c c'"

definition reachable ::
  "('g \<Rightarrow> uint32_t \<times> 'g) \<Rightarrow> (uint64_t \<Rightarrow> uint64_t \<Rightarrow> 'g) \<Rightarrow> locals \<Rightarrow> 'g config \<Rightarrow> bool" where
  "reachable nxt srandom L c \<longleftrightarrow> (step nxt srandom L)\<^sup>*\<^sup>* init_config c"

text \<open>The join loop is passed once every thread has been created and has returned.\<close>

definition joined :: "locals \<Rightarrow> 'g config \<Rightarrow> bool" where
  "joined L c \<longleftrightarrow>
     int (created c) = num_threads L \<and>
     list_all (\<lambda>i. pc c i = Some Finished) [0..<created c]"

definition prices_after_join ::
  "locals \<Rightarrow> 'g config \<Rightarrow> (double_result \<times> double_result) option" where
  "prices_after_join L c =
     (if joined L c
      then map_option (final_prices L) (those (map (cells c) [0..<created c]))
      else None)"

text \<open>
  A schedule written out: the list of moves, each the next pass of the create loop or the
  next statement of one thread. \<open>run_schedule\<close> is \<open>None\<close> when a move is not possible.
\<close>

datatype action = Create | Run nat

fun run_schedule ::
  "('g \<Rightarrow> uint32_t \<times> 'g) \<Rightarrow> (uint64_t \<Rightarrow> uint64_t \<Rightarrow> 'g) \<Rightarrow> locals \<Rightarrow>
     action list \<Rightarrow> 'g config \<Rightarrow> 'g config option" where
  "run_schedule nxt srandom L [] c = Some c"
| "run_schedule nxt srandom L (a # as) c =
     (case (case a of Create \<Rightarrow> create_step srandom L c | Run i \<Rightarrow> thread_step nxt i c) of
        None \<Rightarrow> None
      | Some c' \<Rightarrow> run_schedule nxt srandom L as c')"

text \<open>
  What the cell of a thread holds when the thread stands at a given place, in terms of the
  record \<open>p0\<close> that the create loop wrote; and the invariant of the interleaved run: cells
  and threads exist exactly below \<open>created\<close>, and each cell holds what its own thread has
  made of its own initial record.
\<close>

definition cell_at ::
  "('g \<Rightarrow> uint32_t \<times> 'g) \<Rightarrow> 'g pricing_params_t \<Rightarrow> phase \<Rightarrow> 'g pricing_params_t option" where
  "cell_at nxt p0 ph =
     (case ph of
        Started \<Rightarrow> Some p0
      | CallDone \<Rightarrow>
          map_option (\<lambda>(s, p1). p1\<lparr>call_payoff_sum := s\<rparr>) (monte_carlo_call_payoff_sum nxt p0)
      | Finished \<Rightarrow> thread_pricing_wrapper nxt p0)"

definition config_inv ::
  "('g \<Rightarrow> uint32_t \<times> 'g) \<Rightarrow> (uint64_t \<Rightarrow> uint64_t \<Rightarrow> 'g) \<Rightarrow> locals \<Rightarrow> 'g config \<Rightarrow> bool" where
  "config_inv nxt srandom L c \<longleftrightarrow>
     (\<forall>i. created c \<le> i \<longrightarrow> pc c i = None \<and> cells c i = None) \<and>
     (\<forall>i. i < created c \<longrightarrow>
        (\<exists>ph. pc c i = Some ph \<and> cells c i \<noteq> None \<and>
              cells c i = cell_at nxt (init_params srandom L (int i)) ph))"

section \<open>The path payoff evaluator and the stream of draws, as the specification words them\<close>

definition spec_S_adjust :: "'g pricing_params_t \<Rightarrow> real" where
  "spec_S_adjust p = S p * exp (T p * (r p - 0.5 * v p * v p))"

definition spec_S_terminal :: "'g pricing_params_t \<Rightarrow> real \<Rightarrow> real" where
  "spec_S_terminal p g = spec_S_adjust p * exp (sqrt (v p * v p * T p) * g)"

definition spec_call_payoff :: "'g pricing_params_t \<Rightarrow> real \<Rightarrow> real" where
  "spec_call_payoff p g = max (spec_S_terminal p g - K p) 0"

definition spec_put_payoff :: "'g pricing_params_t \<Rightarrow> real \<Rightarrow> real" where
  "spec_put_payoff p g = max (K p - spec_S_terminal p g) 0"

text \<open>
  The first \<open>n\<close> Gaussian draws of a stream, in order, with the state they leave behind;
  \<open>None\<close> when one of the \<open>n\<close> sampler calls never returns.
\<close>

fun gaussian_draws ::
  "('g \<Rightarrow> uint32_t \<times> 'g) \<Rightarrow> nat \<Rightarrow> 'g \<Rightarrow> (real list \<times> 'g) option" where
  "gaussian_draws nxt 0 g = Some ([], g)"
| "gaussian_draws nxt (Suc n) g =
     (case gaussian_box_muller nxt g of
        None \<Rightarrow> None
      | Some (x, g1) \<Rightarrow>
          (case gaussian_draws nxt n g1 of
             None \<Rightarrow> None
           | Some (xs, g2) \<Rightarrow> Some (x # xs, g2)))"

text \<open>The state of a stream after \<open>k\<close> passes of the rejection loop (two draws each).\<close>

definition two_draws :: "('g \<Rightarrow> uint32_t \<times> 'g) \<Rightarrow> 'g \<Rightarrow> 'g" where
  "two_draws nxt g = snd (nxt (snd (nxt g)))"

text \<open>The sum of squares that the pass starting in state \<open>g\<close> computes.\<close>

definition pass_euclid_sq :: "('g \<Rightarrow> uint32_t \<times> 'g) \<Rightarrow> 'g \<Rightarrow> real" where
  "pass_euclid_sq nxt g =
     (let x = uniform_pm1 (fst (nxt g));
          y = uniform_pm1 (fst (nxt (snd (nxt g))))
      in sum_sq x y)"

section \<open>Generators for concrete runs\<close>

text \<open>A generator that replays a list of words, and returns 0 for ever after its end.\<close>

fun replay :: "uint32_t list \<Rightarrow> uint32_t \<times> uint32_t list" where
  "replay [] = (0, [])"
| "replay (u # us) = (u, us)"


text \<open>
  One path at the parameters of \<open>main\<close>, on a stream whose first pass is accepted:
  both draws are \<open>2^31\<close>, so \<open>x\<close> and \<open>y\<close> are \<open>1 / UINT32_MAX\<close> up to rounding.
\<close>

definition example_params :: "uint32_t list pricing_params_t" where
  "example_params =
     \<lparr>num_sims = 1, S = 100, K = 100, r = 0.05, v = 0.2, T = 1,
      rng = [2147483648, 2147483648, 2147483648, 2147483648],
      call_payoff_sum = 0, put_payoff_sum = 0\<rparr>"

definition example_draw :: real where
  "example_draw =
     box_muller_value (uniform_pm1 2147483648)
       (sum_sq (uniform_pm1 2147483648) (uniform_pm1 2147483648))"

text \<open>A seeding function for concrete runs: every worker replays four draws of \<open>2^31\<close>.\<close>

definition example_srandom :: "uint64_t \<Rightarrow> uint64_t \<Rightarrow> uint32_t list" where
  "example_srandom initstate initseq = [2147483648, 2147483648, 2147483648, 2147483648]"

text \<open>Two schedules of a run with two workers and one path each.\<close>

definition example_locals :: locals where
  "example_locals = main_locals 2 100 100 0.05 0.2 1 2 0"

definition schedule_a :: "action list" where
  "schedule_a = [Create, Create, Run 0, Run 0, Run 1, Run 1]"

definition schedule_b :: "action list" where
  "schedule_b = [Create, Run 0, Create, Run 1, Run 0, Run 1]"

text \<open>
  One path whose two loops see draws of opposite sign: the stream gives \<open>x\<close> near
  \<open>1/2\<close> in the first accepted pass and \<open>x\<close> near \<open>- 1/2\<close> in the second. With
  \<open>r = 0.5 * v * v\<close> the adjusted price \<open>S_adjust\<close> is the strike.
\<close>

definition crossed_params :: "uint32_t list pricing_params_t" where
  "crossed_params =
     \<lparr>num_sims = 1, S = 100, K = 100, r = 0.5, v = 1, T = 1,
      rng = [3221225472, 3221225472, 1073741824, 1073741824],
      call_payoff_sum = 0, put_payoff_sum = 0\<rparr>"

definition up_draw :: real where
  "up_draw =
     box_muller_value (uniform_pm1 3221225472)
       (sum_sq (uniform_pm1 3221225472) (uniform_pm1 3221225472))"

definition down_draw :: real where
  "down_draw =
     box_muller_value (uniform_pm1 1073741824)
       (sum_sq (uniform_pm1 1073741824) (uniform_pm1 1073741824))"

section \<open>Rounding to double precision\<close>

lemma round_even_error: "\<bar>of_int (round_even z) - z\<bar> \<le> 1 / 2"
proof -
  have "of_int \<lfloor>z\<rfloor> \<le> z" "z < of_int \<lfloor>z\<rfloor> + 1" by linarith+
  then show ?thesis by (auto simp: round_even_def Let_def)
qed

lemma double_round_zero [simp]: "double_round 0 = 0"
  by (simp add: double_round_def)

lemma double_round_error: "\<bar>double_round x - x\<bar> \<le> \<bar>x\<bar> / 2 ^ 53"
proof (cases "x = 0")
  case True
  then show ?thesis by simp
next
  case False
  define e where "e = \<lfloor>log 2 \<bar>x\<bar>\<rfloor> - 52"
  define p :: real where "p = 2 powr of_int e"
  have p: "0 < p" by (simp add: p_def)
  have dr: "double_round x = of_int (round_even (x / p)) * p"
    using False by (simp add: double_round_def e_def p_def Let_def)
  have "of_int e + 52 \<le> log 2 \<bar>x\<bar>" by (simp add: e_def)
  then have "2 powr (of_int e + 52) \<le> 2 powr (log 2 \<bar>x\<bar>)" by simp
  then have "p * 2 ^ 52 \<le> \<bar>x\<bar>"
    using False by (simp add: p_def powr_add)
  then have pb: "p / 2 \<le> \<bar>x\<bar> / 2 ^ 53" by simp
  have "double_round x - x = (of_int (round_even (x / p)) - x / p) * p"
    using p by (simp add: dr left_diff_distrib)
  then have "\<bar>double_round x - x\<bar> = \<bar>of_int (round_even (x / p)) - x / p\<bar> * p"
    using p by (simp add: abs_mult)
  also have "\<dots> \<le> 1 / 2 * p"
    using round_even_error [of "x / p"] p by (intro mult_right_mono) simp_all
  also have "\<dots> \<le> \<bar>x\<bar> / 2 ^ 53" using pb by simp
  finally show ?thesis .
qed

lemma double_round_pos:
  assumes "0 < x"
  shows "0 < double_round x"
proof -
  have "\<bar>double_round x - x\<bar> \<le> x / 2 ^ 53" using double_round_error [of x] assms by simp
  moreover have "x / 2 ^ 53 < x" using assms by simp
  ultimately show ?thesis by linarith
qed

lemma double_round_neg:
  assumes "x < 0"
  shows "double_round x < 0"
proof -
  have "\<bar>double_round x - x\<bar> \<le> - x / 2 ^ 53" using double_round_error [of x] assms by simp
  moreover have "- x / 2 ^ 53 < - x" using assms by simp
  ultimately show ?thesis by linarith
qed

lemma double_round_nonneg: "0 \<le> x \<Longrightarrow> 0 \<le> double_round x"
  using double_round_pos [of x] by (cases "x = 0") simp_all

lemma double_round_upper:
  assumes "0 \<le> x"
  shows "double_round x \<le> x + x / 2 ^ 53"
proof -
  have "double_round x - x \<le> \<bar>double_round x - x\<bar>" by simp
  also have "\<dots> \<le> x / 2 ^ 53" using double_round_error [of x] assms by simp
  finally show ?thesis by simp
qed

lemma double_round_lower:
  assumes "0 \<le> x"
  shows "x - x / 2 ^ 53 \<le> double_round x"
proof -
  have "x - double_round x \<le> \<bar>double_round x - x\<bar>" by simp
  also have "\<dots> \<le> x / 2 ^ 53" using double_round_error [of x] assms by simp
  finally show ?thesis by simp
qed

text \<open>Evaluation at a given exponent.\<close>

lemma double_round_at:
  assumes "2 ^ 52 \<le> \<bar>x\<bar> * 2 ^ k" "\<bar>x\<bar> * 2 ^ k < 2 ^ 53"
  shows "double_round x = of_int (round_even (x * 2 ^ k)) / 2 ^ k"
proof -
  from assms(1) have nz: "x \<noteq> 0" by auto
  have "\<lfloor>log 2 \<bar>x\<bar>\<rfloor> = 52 - int k"
  proof (rule floor_unique)
    have "2 powr (52 - real k) \<le> \<bar>x\<bar>"
      using assms(1) by (simp add: powr_diff powr_realpow field_simps)
    then show "of_int (52 - int k) \<le> log 2 \<bar>x\<bar>"
      using nz by (simp add: le_log_iff)
    have "\<bar>x\<bar> < 2 powr (53 - real k)"
      using assms(2) by (simp add: powr_diff powr_realpow field_simps)
    then show "log 2 \<bar>x\<bar> < of_int (52 - int k) + 1"
      using nz by (simp add: log_less_iff)
  qed
  then have "\<lfloor>log 2 \<bar>x\<bar>\<rfloor> - 52 = - int k" by simp
  moreover have "(2::real) powr of_int (- int k) = 1 / 2 ^ k"
    by (simp add: powr_minus powr_realpow inverse_eq_divide)
  ultimately show ?thesis
    using nz by (simp add: double_round_def Let_def)
qed


lemma unat_UINT32_MAX: "unat UINT32_MAX = 4294967295"
  by (simp add: UINT32_MAX_def)

lemma unat_uint32_bound: "real (unat (u::uint32_t)) \<le> 4294967295"
proof -
  have "unat u < 2 ^ 32" using unsigned_less [of u] by simp
  then have "unat u \<le> 4294967295" by simp
  then show ?thesis by (metis of_nat_le_iff of_nat_numeral)
qed

lemma uniform_pm1_close:
  "\<bar>uniform_pm1 u - (2 * real (unat u) / 4294967295 - 1)\<bar> \<le> 1 / 2 ^ 51"
proof -
  define z where "z = 2 * real (unat u) / 4294967295"
  define q where "q = double_round z"
  have "0 \<le> real (unat u)" by (rule of_nat_0_le_iff)
  then have z: "0 \<le> z" "z \<le> 2" using unat_uint32_bound [of u] by (simp_all add: z_def)
  have "\<bar>q - z\<bar> \<le> \<bar>z\<bar> / 2 ^ 53" unfolding q_def by (rule double_round_error)
  with z have qz: "\<bar>q - z\<bar> \<le> 1 / 4503599627370496" by simp
  with z have w: "\<bar>q - 1\<bar> \<le> 2" by argo
  have "\<bar>double_round (q - 1) - (q - 1)\<bar> \<le> \<bar>q - 1\<bar> / 2 ^ 53" by (rule double_round_error)
  with w have "\<bar>double_round (q - 1) - (q - 1)\<bar> \<le> 1 / 4503599627370496" by simp
  with qz have "\<bar>double_round (q - 1) - (z - 1)\<bar> \<le> 1 / 2251799813685248" by argo
  then show ?thesis
    by (simp add: uniform_pm1_def unat_UINT32_MAX q_def z_def)
qed

lemma uniform_pm1_nonzero: "uniform_pm1 u \<noteq> 0"
proof
  assume x0: "uniform_pm1 u = 0"
  have "2 * int (unat u) \<noteq> 4294967295" by presburger
  then have "1 \<le> \<bar>2 * int (unat u) - 4294967295\<bar>" by simp
  then have "1 \<le> \<bar>real_of_int (2 * int (unat u) - 4294967295)\<bar>" 
    by (metis of_int_1_le_iff of_int_abs)
  then have "1 \<le> \<bar>2 * real (unat u) - 4294967295\<bar>" by simp
  then have "1 / 4294967295 \<le> \<bar>2 * real (unat u) - 4294967295\<bar> / 4294967295"
    by (simp add: divide_right_mono)
  also have "\<dots> = \<bar>(2 * real (unat u) - 4294967295) / 4294967295\<bar>"
    by simp
  also have "(2 * real (unat u) - 4294967295) / 4294967295 = 2 * real (unat u) / 4294967295 - 1"
    by (simp add: diff_divide_distrib)
  finally have "1 / 4294967295 \<le> \<bar>2 * real (unat u) / 4294967295 - 1\<bar>" .
  moreover have "\<bar>uniform_pm1 u - (2 * real (unat u) / 4294967295 - 1)\<bar>
      \<le> 1 / 2251799813685248"
    using uniform_pm1_close [of u] by simp
  then have "\<bar>2 * real (unat u) / 4294967295 - 1\<bar> \<le> 1 / 2251799813685248"
    unfolding x0 by argo
  ultimately show False by argo
qed

lemma sum_sq_positive: "x \<noteq> 0 \<Longrightarrow> 0 < sum_sq x y"
proof -
  assume "x \<noteq> 0"
  then have "0 < x * x" using not_real_square_gt_zero [of x] by blast
  then have "0 < double_round (x * x)" by (rule double_round_pos)
  moreover have "0 \<le> double_round (y * y)" by (intro double_round_nonneg) simp
  ultimately show ?thesis unfolding sum_sq_def by (intro double_round_pos) simp
qed

lemma sum_sq_nonneg: "0 \<le> sum_sq x y"
  unfolding sum_sq_def by (intro double_round_nonneg add_nonneg_nonneg) simp_all

lemma sum_sq_small:
  assumes "\<bar>x\<bar> \<le> 3 / 5" "\<bar>y\<bar> \<le> 3 / 5"
  shows "sum_sq x y < 1"
proof -
  have x2: "0 \<le> x * x" "x * x \<le> 9 / 25"
    using assms(1) mult_mono [of "\<bar>x\<bar>" "3 / 5" "\<bar>x\<bar>" "3 / 5"] by (simp_all add: abs_mult_self_eq)
  have y2: "0 \<le> y * y" "y * y \<le> 9 / 25"
    using assms(2) mult_mono [of "\<bar>y\<bar>" "3 / 5" "\<bar>y\<bar>" "3 / 5"] by (simp_all add: abs_mult_self_eq)
  have a: "double_round (x * x) \<le> 37 / 100"
    using double_round_upper [OF x2(1)] x2(2) by simp
  have b: "double_round (y * y) \<le> 37 / 100"
    using double_round_upper [OF y2(1)] y2(2) by simp
  have s0: "0 \<le> double_round (x * x) + double_round (y * y)"
    using double_round_nonneg [OF x2(1)] double_round_nonneg [OF y2(1)] by simp
  have "sum_sq x y \<le> (double_round (x * x) + double_round (y * y)) +
      (double_round (x * x) + double_round (y * y)) / 2 ^ 53"
    unfolding sum_sq_def by (rule double_round_upper [OF s0])
  then have "sum_sq x y \<le> (double_round (x * x) + double_round (y * y)) +
      (double_round (x * x) + double_round (y * y)) / 9007199254740992"
    by simp
  with a b show ?thesis by argo
qed

lemma sum_sq_large:
  assumes "3 / 4 \<le> \<bar>x\<bar>" "3 / 4 \<le> \<bar>y\<bar>"
  shows "1 \<le> sum_sq x y"
proof -
  have x2: "0 \<le> x * x" "9 / 16 \<le> x * x"
    using assms(1) mult_mono [of "3 / 4" "\<bar>x\<bar>" "3 / 4" "\<bar>x\<bar>"] by (simp_all add: abs_mult_self_eq)
  have y2: "0 \<le> y * y" "9 / 16 \<le> y * y"
    using assms(2) mult_mono [of "3 / 4" "\<bar>y\<bar>" "3 / 4" "\<bar>y\<bar>"] by (simp_all add: abs_mult_self_eq)
  have a: "55 / 100 \<le> double_round (x * x)"
    using double_round_lower [OF x2(1)] x2(2) by simp
  have b: "55 / 100 \<le> double_round (y * y)"
    using double_round_lower [OF y2(1)] y2(2) by simp
  have s0: "0 \<le> double_round (x * x) + double_round (y * y)" using a b by simp
  have "(double_round (x * x) + double_round (y * y)) -
      (double_round (x * x) + double_round (y * y)) / 2 ^ 53 \<le> sum_sq x y"
    unfolding sum_sq_def by (rule double_round_lower [OF s0])
  then have "(double_round (x * x) + double_round (y * y)) -
      (double_round (x * x) + double_round (y * y)) / 9007199254740992 \<le> sum_sq x y"
    by simp
  with a b show ?thesis by argo
qed

lemma uniform_pm1_close_numeral:
  "\<bar>uniform_pm1 u - (2 * real (unat u) / 4294967295 - 1)\<bar> \<le> 1 / 2251799813685248"
  using uniform_pm1_close [of u] by simp

lemma uniform_pm1_examples:
  "\<bar>uniform_pm1 2147483648\<bar> \<le> 3 / 5"
  "0 < uniform_pm1 3221225472" "\<bar>uniform_pm1 3221225472\<bar> \<le> 3 / 5"
  "uniform_pm1 1073741824 < 0" "\<bar>uniform_pm1 1073741824\<bar> \<le> 3 / 5"
  "3 / 4 \<le> \<bar>uniform_pm1 0\<bar>"
proof -
  have a: "\<bar>uniform_pm1 2147483648 - 1 / 4294967295\<bar> \<le> 1 / 2251799813685248"
    using uniform_pm1_close_numeral [of 2147483648] by simp
  have b: "\<bar>uniform_pm1 3221225472 - 2147483649 / 4294967295\<bar> \<le> 1 / 2251799813685248"
    using uniform_pm1_close_numeral [of 3221225472] by simp
  have c: "\<bar>uniform_pm1 1073741824 + 2147483647 / 4294967295\<bar> \<le> 1 / 2251799813685248"
    using uniform_pm1_close_numeral [of 1073741824] by simp
  have d: "\<bar>uniform_pm1 0 + 1\<bar> \<le> 1 / 2251799813685248"
    using uniform_pm1_close_numeral [of 0] by simp
  from a show "\<bar>uniform_pm1 2147483648\<bar> \<le> 3 / 5" by argo
  from b show "0 < uniform_pm1 3221225472" by argo
  from b show "\<bar>uniform_pm1 3221225472\<bar> \<le> 3 / 5" by argo
  from c show "uniform_pm1 1073741824 < 0" by argo
  from c show "\<bar>uniform_pm1 1073741824\<bar> \<le> 3 / 5" by argo
  from d show "3 / 4 \<le> \<bar>uniform_pm1 0\<bar>" by argo
qed

text \<open>
  Two pairs of draws next to the unit circle, evaluated exactly. For the first the exact sum
  of squares is below 1 and the rounded one is 1: the loop runs again. For the second the
  exact sum is at least 1 and the rounded one is below 1: the pair is accepted.
\<close>

lemma edge_up_x_quot: "double_round (1435085132 / 1431655765) = 282149217697949 / 281474976710656"
  by (subst double_round_at [where k = 52]) (simp_all add: round_even_def)

lemma edge_up_x_diff: "double_round (674240987293 / 281474976710656) = 674240987293 / 281474976710656"
  by (subst double_round_at [where k = 61]) (simp_all add: round_even_def)

lemma edge_up_x: "uniform_pm1 2152627698 = 674240987293 / 281474976710656"
  by (simp add: uniform_pm1_def unat_UINT32_MAX edge_up_x_quot) (simp add: edge_up_x_diff)

lemma edge_up_y_quot: "double_round (8589922268 / 4294967295) = 9007186334187517 / 4503599627370496"
  by (subst double_round_at [where k = 52]) (simp_all add: round_even_def)

lemma edge_up_y_diff: "double_round (4503586706817021 / 4503599627370496) = 4503586706817021 / 4503599627370496"
  by (subst double_round_at [where k = 53]) (simp_all add: round_even_def)

lemma edge_up_y: "uniform_pm1 4294961134 = 4503586706817021 / 4503599627370496"
  by (simp add: uniform_pm1_def unat_UINT32_MAX edge_up_y_quot) (simp add: edge_up_y_diff)

lemma edge_up_xx: "double_round (454600908945839387467849 / 79228162514264337593543950336) = 3387040711535807 / 590295810358705651712"
  by (subst double_round_at [where k = 70]) (simp_all add: round_even_def)

lemma edge_up_yy: "double_round (20282293225818980264913175314441 / 20282409603651670423947251286016) = 9007147572601229 / 9007199254740992"
  by (subst double_round_at [where k = 53]) (simp_all add: round_even_def)

lemma edge_up_sum: "double_round (590295810358705679551 / 590295810358705651712) = 1"
  by (subst double_round_at [where k = 52]) (simp_all add: round_even_def)

lemma edge_up_sum_sq: "sum_sq (uniform_pm1 2152627698) (uniform_pm1 4294961134) = 1"
  by (simp add: sum_sq_def edge_up_x edge_up_y edge_up_xx edge_up_yy) (simp add: edge_up_sum)

lemma edge_down_x_quot: "double_round (1435371524 / 1431655765) = 2257644197250385 / 2251799813685248"
  by (subst double_round_at [where k = 52]) (simp_all add: round_even_def)

lemma edge_down_x_diff: "double_round (5844383565137 / 2251799813685248) = 5844383565137 / 2251799813685248"
  by (subst double_round_at [where k = 61]) (simp_all add: round_even_def)

lemma edge_down_x: "uniform_pm1 2153057286 = 5844383565137 / 2251799813685248"
  by (simp add: uniform_pm1_def unat_UINT32_MAX edge_down_x_quot) (simp add: edge_down_x_diff)

lemma edge_down_y_quot: "double_round (2863306708 / 1431655765) = 2251796021510143 / 1125899906842624"
  by (subst double_round_at [where k = 52]) (simp_all add: round_even_def)

lemma edge_down_y_diff: "double_round (1125896114667519 / 1125899906842624) = 1125896114667519 / 1125899906842624"
  by (subst double_round_at [where k = 53]) (simp_all add: round_even_def)

lemma edge_down_y: "uniform_pm1 4294960062 = 1125896114667519 / 1125899906842624"
  by (simp add: uniform_pm1_def unat_UINT32_MAX edge_down_y_quot) (simp add: edge_down_y_diff)

lemma edge_down_xx: "double_round (34156819256443470321828769 / 5070602400912917605986812821504) = 3976377106323311 / 590295810358705651712"
  by (subst double_round_at [where k = 70]) (simp_all add: round_even_def)

lemma edge_down_yy: "double_round (1267642061023415092687913615361 / 1267650600228229401496703205376) = 2251784645010373 / 2251799813685248"
  by (subst double_round_at [where k = 53]) (simp_all add: round_even_def)

lemma edge_down_sum: "double_round (590295810358705543023 / 590295810358705651712) = 4503599627370495 / 4503599627370496"
  by (subst double_round_at [where k = 53]) (simp_all add: round_even_def)

lemma edge_down_sum_sq: "sum_sq (uniform_pm1 2153057286) (uniform_pm1 4294960062) = 4503599627370495 / 4503599627370496"
  by (simp add: sum_sq_def edge_down_x edge_down_y edge_down_xx edge_down_yy) (simp add: edge_down_sum)

lemma edge_up_rejected:
  "loop_again (sum_sq (uniform_pm1 2152627698) (uniform_pm1 4294961134))"
  "(2 * 2152627698 / 4294967295 - 1) * (2 * 2152627698 / 4294967295 - 1) +
   (2 * 4294961134 / 4294967295 - 1) * (2 * 4294961134 / 4294967295 - 1) < (1::real)"
  by (simp_all add: loop_again_def edge_up_sum_sq)

lemma edge_down_accepted:
  "\<not> loop_again (sum_sq (uniform_pm1 2153057286) (uniform_pm1 4294960062))"
  "(1::real) \<le> (2 * 2153057286 / 4294967295 - 1) * (2 * 2153057286 / 4294967295 - 1) +
   (2 * 4294960062 / 4294967295 - 1) * (2 * 4294960062 / 4294967295 - 1)"
  by (simp_all add: loop_again_def edge_down_sum_sq)

section \<open>The payoff loops and the stream of draws\<close>

lemma MAX_macro_zero: "MAX_macro a 0 = max a 0"
  by (simp add: MAX_macro_def max_def)

lemma MAX_macro_nonneg: "0 \<le> MAX_macro a 0"
  by (simp add: MAX_macro_def)

lemma call_loop_draws:
  "call_loop nxt Sa i acc p =
     (case gaussian_draws nxt (nat (num_sims p - i)) (rng p) of
        None \<Rightarrow> None
      | Some (gs, g') \<Rightarrow>
          Some (acc + (\<Sum>g\<leftarrow>gs. MAX_macro (Sa * exp (sqrt (v p * v p * T p) * g) - K p) 0),
                p\<lparr>rng := g'\<rparr>))"
proof (induction nxt Sa i acc p rule: call_loop.induct)
  case (1 nxt Sa i acc p)
  show ?case
  proof (cases "i < num_sims p")
    case False
    then show ?thesis by (simp add: call_loop.simps [of nxt Sa i acc p])
  next
    case True
    then have n: "nat (num_sims p - i) = Suc (nat (num_sims p - (i + 1)))" by simp
    show ?thesis
    proof (cases "gaussian_box_muller nxt (rng p)")
      case None
      with True show ?thesis by (simp add: call_loop.simps [of nxt Sa i acc p] n)
    next
      case (Some a)
      obtain x g1 where a: "a = (x, g1)" by (cases a)
      have ih: "call_loop nxt Sa (i + 1)
                  (acc + MAX_macro (Sa * exp (sqrt (v p * v p * T p) * x) - K p) 0)
                  (p\<lparr>rng := g1\<rparr>) =
                (case gaussian_draws nxt (nat (num_sims p - (i + 1))) g1 of
                   None \<Rightarrow> None
                 | Some (gs, g') \<Rightarrow>
                     Some (acc + MAX_macro (Sa * exp (sqrt (v p * v p * T p) * x) - K p) 0 +
                           (\<Sum>g\<leftarrow>gs. MAX_macro (Sa * exp (sqrt (v p * v p * T p) * g) - K p) 0),
                           p\<lparr>rng := g'\<rparr>))"
        using "1.IH" [OF True Some [unfolded a] refl refl refl]
        by (simp split: option.splits)
      show ?thesis
        using True Some a ih
        by (simp add: call_loop.simps [of nxt Sa i acc p] n add.assoc split: option.splits)
    qed
  qed
qed

lemma put_loop_draws:
  "put_loop nxt Sa i acc p =
     (case gaussian_draws nxt (nat (num_sims p - i)) (rng p) of
        None \<Rightarrow> None
      | Some (gs, g') \<Rightarrow>
          Some (acc + (\<Sum>g\<leftarrow>gs. MAX_macro (K p - Sa * exp (sqrt (v p * v p * T p) * g)) 0),
                p\<lparr>rng := g'\<rparr>))"
proof (induction nxt Sa i acc p rule: put_loop.induct)
  case (1 nxt Sa i acc p)
  show ?case
  proof (cases "i < num_sims p")
    case False
    then show ?thesis by (simp add: put_loop.simps [of nxt Sa i acc p])
  next
    case True
    then have n: "nat (num_sims p - i) = Suc (nat (num_sims p - (i + 1)))" by simp
    show ?thesis
    proof (cases "gaussian_box_muller nxt (rng p)")
      case None
      with True show ?thesis by (simp add: put_loop.simps [of nxt Sa i acc p] n)
    next
      case (Some a)
      obtain x g1 where a: "a = (x, g1)" by (cases a)
      have ih: "put_loop nxt Sa (i + 1)
                  (acc + MAX_macro (K p - Sa * exp (sqrt (v p * v p * T p) * x)) 0)
                  (p\<lparr>rng := g1\<rparr>) =
                (case gaussian_draws nxt (nat (num_sims p - (i + 1))) g1 of
                   None \<Rightarrow> None
                 | Some (gs, g') \<Rightarrow>
                     Some (acc + MAX_macro (K p - Sa * exp (sqrt (v p * v p * T p) * x)) 0 +
                           (\<Sum>g\<leftarrow>gs. MAX_macro (K p - Sa * exp (sqrt (v p * v p * T p) * g)) 0),
                           p\<lparr>rng := g'\<rparr>))"
        using "1.IH" [OF True Some [unfolded a] refl refl refl]
        by (simp split: option.splits)
      show ?thesis
        using True Some a ih
        by (simp add: put_loop.simps [of nxt Sa i acc p] n add.assoc split: option.splits)
    qed
  qed
qed

lemma call_sum_draws:
  "monte_carlo_call_payoff_sum nxt p =
     (case gaussian_draws nxt (nat (num_sims p)) (rng p) of
        None \<Rightarrow> None
      | Some (gs, g') \<Rightarrow> Some ((\<Sum>g\<leftarrow>gs. spec_call_payoff p g), p\<lparr>rng := g'\<rparr>))"
  by (simp add: monte_carlo_call_payoff_sum_def call_loop_draws spec_call_payoff_def
      spec_S_terminal_def spec_S_adjust_def MAX_macro_zero split: option.splits)

lemma put_sum_draws:
  "monte_carlo_put_payoff_sum nxt p =
     (case gaussian_draws nxt (nat (num_sims p)) (rng p) of
        None \<Rightarrow> None
      | Some (gs, g') \<Rightarrow> Some ((\<Sum>g\<leftarrow>gs. spec_put_payoff p g), p\<lparr>rng := g'\<rparr>))"
  by (simp add: monte_carlo_put_payoff_sum_def put_loop_draws spec_put_payoff_def
      spec_S_terminal_def spec_S_adjust_def MAX_macro_zero split: option.splits)

lemma gaussian_draws_length:
  "gaussian_draws nxt n g = Some (gs, g') \<Longrightarrow> length gs = n"
  by (induction n arbitrary: g gs) (auto split: option.splits)

lemma gaussian_draws_add:
  "gaussian_draws nxt (m + n) g =
     (case gaussian_draws nxt m g of
        None \<Rightarrow> None
      | Some (xs, g1) \<Rightarrow>
          (case gaussian_draws nxt n g1 of
             None \<Rightarrow> None
           | Some (ys, g2) \<Rightarrow> Some (xs @ ys, g2)))"
  by (induction m arbitrary: g) (auto split: option.splits)

lemma spec_payoff_rng [simp]:
  "spec_call_payoff (p\<lparr>rng := g\<rparr>) = spec_call_payoff p"
  "spec_put_payoff (p\<lparr>rng := g\<rparr>) = spec_put_payoff p"
  "spec_call_payoff (p\<lparr>call_payoff_sum := c\<rparr>) = spec_call_payoff p"
  "spec_put_payoff (p\<lparr>call_payoff_sum := c\<rparr>) = spec_put_payoff p"
  by (simp_all add: fun_eq_iff spec_call_payoff_def spec_put_payoff_def spec_S_terminal_def
      spec_S_adjust_def)

lemma wrapper_draws:
  "thread_pricing_wrapper nxt p =
     (case gaussian_draws nxt (nat (num_sims p) + nat (num_sims p)) (rng p) of
        None \<Rightarrow> None
      | Some (gs, g') \<Rightarrow>
          Some (p\<lparr>rng := g',
                  call_payoff_sum := (\<Sum>g\<leftarrow>take (nat (num_sims p)) gs. spec_call_payoff p g),
                  put_payoff_sum := (\<Sum>g\<leftarrow>drop (nat (num_sims p)) gs. spec_put_payoff p g)\<rparr>))"
  by (auto simp add: thread_pricing_wrapper_def call_sum_draws put_sum_draws gaussian_draws_add
      dest: gaussian_draws_length split: option.splits)

section \<open>The sampler on a replayed stream\<close>

lemma replay_sampler:
  "gaussian_box_muller replay (a # b # us) =
     (if loop_again (sum_sq (uniform_pm1 a) (uniform_pm1 b))
      then gaussian_box_muller replay us
      else Some (box_muller_value (uniform_pm1 a) (sum_sq (uniform_pm1 a) (uniform_pm1 b)), us))"
  by (subst gaussian_box_muller.simps) (simp add: Let_def)

lemma example_pass_accepted:
  "\<not> loop_again (sum_sq (uniform_pm1 2147483648) (uniform_pm1 2147483648))"
  using sum_sq_small [OF uniform_pm1_examples(1) uniform_pm1_examples(1)]
  by (simp add: loop_again_def)

lemma example_sampler:
  "gaussian_box_muller replay (2147483648 # 2147483648 # us) = Some (example_draw, us)"
  by (simp only: replay_sampler example_pass_accepted if_False example_draw_def)



text \<open>
  Claim C1. Whenever the sampler calls of a loop return, giving the draws \<open>gs\<close>, the call
  loop returns the sum over \<open>gs\<close> of \<open>max (S_terminal - K) 0\<close> and the put loop the sum of
  \<open>max (K - S_terminal) 0\<close>, where \<open>S_terminal = S_adjust * exp (sqrt (v * v * T) * g)\<close> and
  \<open>S_adjust = S * exp (T * (r - 0.5 * v * v))\<close> are those of the specification. The payoff
  of a pass depends on the record's parameters and the draw only, and the loop changes
  nothing in the record but the generator state.
\<close>

theorem path_payoff_evaluation:
  assumes "gaussian_draws nxt (nat (num_sims p)) (rng p) = Some (gs, g')"
  shows "monte_carlo_call_payoff_sum nxt p =
           Some ((\<Sum>g\<leftarrow>gs. spec_call_payoff p g), p\<lparr>rng := g'\<rparr>) \<and>
         monte_carlo_put_payoff_sum nxt p =
           Some ((\<Sum>g\<leftarrow>gs. spec_put_payoff p g), p\<lparr>rng := g'\<rparr>)"
  using assms by (simp add: call_sum_draws put_sum_draws)

theorem path_payoff_evaluation_witness:
  "gaussian_draws replay (nat (num_sims example_params)) (rng example_params) =
     Some ([example_draw], [2147483648, 2147483648]) \<and>
   monte_carlo_call_payoff_sum replay example_params =
     Some (spec_call_payoff example_params example_draw,
           example_params\<lparr>rng := [2147483648, 2147483648]\<rparr>) \<and>
   monte_carlo_put_payoff_sum replay example_params =
     Some (spec_put_payoff example_params example_draw,
           example_params\<lparr>rng := [2147483648, 2147483648]\<rparr>)"
proof -
  have d: "gaussian_draws replay (nat (num_sims example_params)) (rng example_params) =
     Some ([example_draw], [2147483648, 2147483648])"
    by (simp add: example_params_def example_sampler)
  from path_payoff_evaluation [OF d] d show ?thesis by simp
qed

section \<open>The driver: partition, guard and final prices\<close>

lemma c_div_nonneg: "0 \<le> a \<Longrightarrow> 0 < b \<Longrightarrow> c_div a b = a div b"
  by (cases "a = 0") (simp_all add: c_div_def)

lemma c_mod_nonneg: "0 \<le> a \<Longrightarrow> 0 < b \<Longrightarrow> c_mod a b = a mod b"
  by (simp add: c_mod_def c_div_nonneg minus_mult_div_eq_mod)

lemma main_locals_fields:
  "num_threads (main_locals requested S0 K0 r0 v0 T0 nprocs seed) =
     (if nprocs < 1 then 1 else nprocs)"
  "base_seed (main_locals requested S0 K0 r0 v0 T0 nprocs seed) = seed"
  "total_sims (main_locals requested S0 K0 r0 v0 T0 nprocs seed) =
     requested - c_mod requested (if nprocs < 1 then 1 else nprocs)"
  "S_loc (main_locals requested S0 K0 r0 v0 T0 nprocs seed) = S0"
  "K_loc (main_locals requested S0 K0 r0 v0 T0 nprocs seed) = K0"
  "r_loc (main_locals requested S0 K0 r0 v0 T0 nprocs seed) = r0"
  "v_loc (main_locals requested S0 K0 r0 v0 T0 nprocs seed) = v0"
  "T_loc (main_locals requested S0 K0 r0 v0 T0 nprocs seed) = T0"
  by (simp_all add: main_locals_def Let_def)

lemma total_sims_adjusted:
  assumes "0 \<le> requested" "1 \<le> w"
  shows "total_sims (main_locals requested S0 K0 r0 v0 T0 w seed) = requested - requested mod w"
  using assms by (simp add: main_locals_fields c_mod_nonneg)

lemma per_worker_count:
  assumes "0 \<le> requested" "1 \<le> w"
  shows "num_sims (init_params srandom (main_locals requested S0 K0 r0 v0 T0 w seed) i) =
           (requested - requested mod w) div w"
proof -
  have "0 \<le> requested - requested mod w"
    using assms by (simp add: zmod_le_nonneg_dividend) 
  then show ?thesis
    using assms by (simp add: init_params_def main_locals_fields c_mod_nonneg c_div_nonneg)
qed

lemma sum_list_const_int: "(\<Sum>x\<leftarrow>xs. (c::int)) = int (length xs) * c"
  by (induction xs) (simp_all add: algebra_simps)




lemma sum_payoffs_sums:
  "sum_payoffs a b ps =
     (a + (\<Sum>p\<leftarrow>ps. call_payoff_sum p), b + (\<Sum>p\<leftarrow>ps. put_payoff_sum p))"
  by (induction ps arbitrary: a b) (simp_all add: add.assoc)


lemma final_prices_formula:
  "total_sims L \<noteq> 0 \<Longrightarrow>
   final_prices L tps =
     (Finite ((\<Sum>p\<leftarrow>tps. call_payoff_sum p) / real_of_int (total_sims L) *
              exp (- r_loc L * T_loc L)),
      Finite ((\<Sum>p\<leftarrow>tps. put_payoff_sum p) / real_of_int (total_sims L) *
              exp (- r_loc L * T_loc L)))"
  by (simp add: final_prices_def double_div_def times_double_def sum_payoffs_sums)

text \<open>
  Claim C4. For every worker count \<open>w \<ge> 1\<close> and the requested total 10000000 of \<open>main\<close>,
  the adjusted total is \<open>10000000 - 10000000 mod w\<close>, every one of the \<open>w\<close> worker records
  gets \<open>(10000000 - 10000000 mod w) div w\<close> simulations, that count times \<open>w\<close> is the
  adjusted total, and the divisor of the discounting step is the sum of the per-worker
  counts.
\<close>

theorem partition_exact:
  assumes "1 \<le> w"
  shows "num_threads (main_locals 10000000 S0 K0 r0 v0 T0 w seed) = w \<and>
         total_sims (main_locals 10000000 S0 K0 r0 v0 T0 w seed) = 10000000 - 10000000 mod w \<and>
         length (thread_params_init srandom (main_locals 10000000 S0 K0 r0 v0 T0 w seed)) = nat w \<and>
         list_all (\<lambda>p. num_sims p = (10000000 - 10000000 mod w) div w)
           (thread_params_init srandom (main_locals 10000000 S0 K0 r0 v0 T0 w seed)) \<and>
         (10000000 - 10000000 mod w) div w * w = 10000000 - 10000000 mod w \<and>
         (\<Sum>p\<leftarrow>thread_params_init srandom (main_locals 10000000 S0 K0 r0 v0 T0 w seed).
            num_sims p) = total_sims (main_locals 10000000 S0 K0 r0 v0 T0 w seed) \<and>
         final_prices (main_locals 10000000 S0 K0 r0 v0 T0 w seed) tps =
           (times_double
              (double_div (fst (sum_payoffs 0 0 tps))
                 (real_of_int (\<Sum>p\<leftarrow>thread_params_init srandom
                                      (main_locals 10000000 S0 K0 r0 v0 T0 w seed). num_sims p)))
              (exp (- r0 * T0)),
            times_double
              (double_div (snd (sum_payoffs 0 0 tps))
                 (real_of_int (\<Sum>p\<leftarrow>thread_params_init srandom
                                      (main_locals 10000000 S0 K0 r0 v0 T0 w seed). num_sims p)))
              (exp (- r0 * T0)))"
proof -
  let ?L = "main_locals 10000000 S0 K0 r0 v0 T0 w seed"
  let ?tps = "thread_params_init srandom ?L"
  let ?n = "10000000 - 10000000 mod w"
  have nt: "num_threads ?L = w" using assms by (simp add: main_locals_fields)
  have ts: "total_sims ?L = ?n" using assms by (simp add: total_sims_adjusted)
  have len: "length ?tps = nat w" by (simp add: thread_params_init_def nt)
  have each: "\<And>i. num_sims (init_params srandom ?L i) = ?n div w"
    using assms by (simp add: per_worker_count)
  have all: "list_all (\<lambda>p. num_sims p = ?n div w) ?tps"
    by (simp add: thread_params_init_def list_all_iff each)
  have "w dvd ?n" by (simp add: dvd_minus_mod)
  then have prod: "?n div w * w = ?n" by simp
  have "(\<Sum>p\<leftarrow>?tps. num_sims p) = (\<Sum>i\<leftarrow>[0..<nat w]. ?n div w)"
    by (simp add: thread_params_init_def nt each comp_def)
  also have "\<dots> = int (nat w) * (?n div w)" by (simp add: sum_list_const_int)
  also have "\<dots> = ?n" using assms prod by (simp add: mult.commute)
  finally have sum: "(\<Sum>p\<leftarrow>?tps. num_sims p) = total_sims ?L" by (simp add: ts)
  have fin: "final_prices ?L tps =
      (times_double (double_div (fst (sum_payoffs 0 0 tps)) (real_of_int (total_sims ?L)))
         (exp (- r0 * T0)),
       times_double (double_div (snd (sum_payoffs 0 0 tps)) (real_of_int (total_sims ?L)))
         (exp (- r0 * T0)))"
    by (simp add: final_prices_def main_locals_fields split: prod.splits)
  show ?thesis
    using nt ts len all prod sum fin by (simp only: simp_thms)
qed


theorem partition_exact_witness:
  "(1::int) \<le> 3 \<and>
   num_threads (main_locals 10000000 100 100 0.05 0.2 1 3 0) = 3 \<and>
   total_sims (main_locals 10000000 100 100 0.05 0.2 1 3 0) = 9999999 \<and>
   list_all (\<lambda>p. num_sims p = 3333333)
     (thread_params_init example_srandom (main_locals 10000000 100 100 0.05 0.2 1 3 0)) \<and>
   (\<Sum>p\<leftarrow>thread_params_init example_srandom (main_locals 10000000 100 100 0.05 0.2 1 3 0).
      num_sims p) = 9999999"
proof -
  let ?L = "main_locals 10000000 100 100 0.05 0.2 1 3 0"
  have w: "(1::int) \<le> 3" by simp
  note t = partition_exact [OF w, where ?S0.0 = 100 and ?K0.0 = 100 and ?r0.0 = "0.05"
      and ?v0.0 = "0.2" and ?T0.0 = 1 and seed = 0 and srandom = example_srandom and tps = "[]"]
  from t have nt: "num_threads ?L = 3" by (rule conjunct1)
  from t have "total_sims ?L = 10000000 - 10000000 mod 3" by (elim conjE)
  then have ts: "total_sims ?L = 9999999" by simp
  from t have "list_all (\<lambda>p. num_sims p = (10000000 - 10000000 mod 3) div 3)
      (thread_params_init example_srandom ?L)"
    by (elim conjE)
  then have each: "list_all (\<lambda>p. num_sims p = 3333333) (thread_params_init example_srandom ?L)"
    by simp
  from t have "(\<Sum>p\<leftarrow>thread_params_init example_srandom ?L. num_sims p) = total_sims ?L"
    by (elim conjE)
  with ts have sum: "(\<Sum>p\<leftarrow>thread_params_init example_srandom ?L. num_sims p) = 9999999"
    by (simp only:)
  from w nt ts each sum show ?thesis by (simp only: simp_thms)
qed










section \<open>The interleaved run: every cell is the work of its own thread\<close>

lemma config_inv_init: "config_inv nxt srandom L init_config"
  by (simp add: config_inv_def init_config_def)

lemma config_inv_create:
  assumes "config_inv nxt srandom L c" "create_step srandom L c = Some c'"
  shows "config_inv nxt srandom L c'"
proof -
  from assms(2) have c': "c' = c\<lparr>created := Suc (created c),
        cells := (cells c)(created c \<mapsto> init_params srandom L (int (created c))),
        pc := (pc c)(created c \<mapsto> Started)\<rparr>"
    by (simp add: create_step_def split: if_splits)
  show ?thesis
    unfolding config_inv_def
  proof (intro conjI allI impI)
    fix i assume "created c' \<le> i"
    then show "pc c' i = None" "cells c' i = None"
      using assms(1) by (simp_all add: c' config_inv_def)
  next
    fix i assume i: "i < created c'"
    show "\<exists>ph. pc c' i = Some ph \<and> cells c' i \<noteq> None \<and>
            cells c' i = cell_at nxt (init_params srandom L (int i)) ph"
    proof (cases "i = created c")
      case True
      then show ?thesis by (simp add: c' cell_at_def)
    next
      case False
      with i have "i < created c" by (simp add: c')
      with assms(1) False show ?thesis by (simp add: c' config_inv_def)
    qed
  qed
qed

lemma thread_step_cases:
  assumes "thread_step nxt i c = Some c'"
  obtains (call) params s params1 where
      "pc c i = Some Started" "cells c i = Some params"
      "monte_carlo_call_payoff_sum nxt params = Some (s, params1)"
      "c' = c\<lparr>cells := (cells c)(i \<mapsto> params1\<lparr>call_payoff_sum := s\<rparr>),
               pc := (pc c)(i \<mapsto> CallDone)\<rparr>"
  | (put) params s params1 where
      "pc c i = Some CallDone" "cells c i = Some params"
      "monte_carlo_put_payoff_sum nxt params = Some (s, params1)"
      "c' = c\<lparr>cells := (cells c)(i \<mapsto> params1\<lparr>put_payoff_sum := s\<rparr>),
               pc := (pc c)(i \<mapsto> Finished)\<rparr>"
  using assms
  by (auto simp: thread_step_def split: option.splits phase.splits prod.splits)

lemma config_inv_thread:
  assumes inv: "config_inv nxt srandom L c" and st: "thread_step nxt i c = Some c'"
  shows "config_inv nxt srandom L c'"
proof -
  have crt: "created c' = created c"
    using st by (cases rule: thread_step_cases) simp_all
  have other: "\<And>j. j \<noteq> i \<Longrightarrow> pc c' j = pc c j \<and> cells c' j = cells c j"
    using st by (cases rule: thread_step_cases) simp_all
  have "pc c i \<noteq> None" using st by (cases rule: thread_step_cases) simp_all
  with inv have i: "i < created c" by (auto simp: config_inv_def not_le [symmetric])
  let ?p0 = "init_params srandom L (int i)"
  have own: "\<exists>ph. pc c' i = Some ph \<and> cells c' i \<noteq> None \<and> cells c' i = cell_at nxt ?p0 ph"
    using st
  proof (cases rule: thread_step_cases)
    case (call params s params1)
    from inv i call(1,2) have "params = ?p0" by (auto simp: config_inv_def cell_at_def)
    with call show ?thesis by (simp add: cell_at_def)
  next
    case (put params s params1)
    from inv i put(1,2) have "cell_at nxt ?p0 CallDone = Some params"
      by (auto simp: config_inv_def)
    with put show ?thesis
      by (auto simp: cell_at_def thread_pricing_wrapper_def split: option.splits)
  qed
  show ?thesis
    unfolding config_inv_def
  proof (intro conjI allI impI)
    fix j assume "created c' \<le> j"
    with i crt have "j \<noteq> i" by simp
    with other [of j] inv \<open>created c' \<le> j\<close> crt
    show "pc c' j = None" "cells c' j = None" by (simp_all add: config_inv_def)
  next
    fix j assume j: "j < created c'"
    show "\<exists>ph. pc c' j = Some ph \<and> cells c' j \<noteq> None \<and>
            cells c' j = cell_at nxt (init_params srandom L (int j)) ph"
    proof (cases "j = i")
      case True
      with own show ?thesis by simp
    next
      case False
      with other [of j] inv j crt show ?thesis by (simp add: config_inv_def)
    qed
  qed
qed

lemma config_inv_step:
  "step nxt srandom L c c' \<Longrightarrow> config_inv nxt srandom L c \<Longrightarrow> config_inv nxt srandom L c'"
  by (induction rule: step.induct) (auto intro: config_inv_create config_inv_thread)

lemma reachable_inv: "reachable nxt srandom L c \<Longrightarrow> config_inv nxt srandom L c"
  unfolding reachable_def
  by (induction rule: rtranclp_induct) (auto intro: config_inv_init config_inv_step)

lemma joined_cells:
  assumes inv: "config_inv nxt srandom L c" and j: "joined L c" and i: "i < created c"
  shows "cells c i = thread_pricing_wrapper nxt (init_params srandom L (int i))"
    and "cells c i \<noteq> None"
proof -
  from j i have "pc c i = Some Finished" by (simp add: joined_def list_all_iff)
  with inv i show "cells c i = thread_pricing_wrapper nxt (init_params srandom L (int i))"
    and "cells c i \<noteq> None"
    by (auto simp: config_inv_def cell_at_def)
qed

lemma those_map_the:
  "(\<And>x. x \<in> set xs \<Longrightarrow> f x \<noteq> None) \<Longrightarrow> those (map f xs) = Some (map (\<lambda>x. the (f x)) xs)"
proof (induction xs)
  case Nil
  show ?case by simp
next
  case (Cons a xs)
  then obtain y where "f a = Some y" by force
  moreover have "those (map f xs) = Some (map (\<lambda>x. the (f x)) xs)"
    using Cons by simp
  ultimately show ?case by simp
qed

lemma joined_cells_are_workers:
  assumes inv: "config_inv nxt srandom L c" and j: "joined L c"
  shows "map (cells c) [0..<created c] =
           map (thread_pricing_wrapper nxt) (thread_params_init srandom L)"
proof -
  from j have "int (created c) = num_threads L" by (simp add: joined_def)
  then have n: "nat (num_threads L) = created c" by linarith
  have "map (cells c) [0..<created c] =
          map (\<lambda>i. thread_pricing_wrapper nxt (init_params srandom L (int i))) [0..<created c]"
    using joined_cells(1) [OF inv j] by simp
  then show ?thesis by (simp add: thread_params_init_def n comp_def)
qed

lemma interleaved_is_sequential:
  assumes "reachable nxt srandom L c" "joined L c"
  shows "prices_after_join L c =
           map_option (final_prices L)
             (those (map (thread_pricing_wrapper nxt) (thread_params_init srandom L)))"
    and "prices_after_join L c \<noteq> None"
proof -
  have inv: "config_inv nxt srandom L c" using assms(1) by (rule reachable_inv)
  show eq: "prices_after_join L c =
           map_option (final_prices L)
             (those (map (thread_pricing_wrapper nxt) (thread_params_init srandom L)))"
    using assms(2) joined_cells_are_workers [OF inv assms(2)]
    by (simp add: prices_after_join_def)
  have "those (map (cells c) [0..<created c]) \<noteq> None"
    using those_map_the [of "[0..<created c]" "cells c"] joined_cells(2) [OF inv assms(2)]
    by simp
  then show "prices_after_join L c \<noteq> None"
    using assms(2) by (simp add: prices_after_join_def)
qed

lemma run_schedule_steps:
  "run_schedule nxt srandom L sched c = Some c' \<Longrightarrow> (step nxt srandom L)\<^sup>*\<^sup>* c c'"
proof (induction sched arbitrary: c)
  case Nil
  then show ?case by simp
next
  case (Cons a sched)
  then obtain c1 where
    a: "(case a of Create \<Rightarrow> create_step srandom L c | Run i \<Rightarrow> thread_step nxt i c) = Some c1"
    and rest: "run_schedule nxt srandom L sched c1 = Some c'"
    by (auto split: option.splits)
  from a have "step nxt srandom L c c1"
    by (cases a) (auto intro: step.intros)
  then show ?case using Cons.IH [OF rest] by (rule converse_rtranclp_into_rtranclp)
qed

lemma run_schedule_reachable:
  "run_schedule nxt srandom L sched init_config = Some c \<Longrightarrow> reachable nxt srandom L c"
  unfolding reachable_def by (rule run_schedule_steps)

text \<open>
  Claim C7. For fixed parameters, worker count and seed, every run of the create loop and
  the threads that reaches the end of the join loop, under whatever schedule, ends with the
  same call and put prices: the value of \<open>main_body\<close>, a function of the parameters, the
  worker count and the seed. Such a run has prices, so the statement is about all complete
  runs.
\<close>

theorem pipeline_deterministic:
  assumes "reachable nxt srandom (main_locals requested S0 K0 r0 v0 T0 nprocs seed) c1"
    and "joined (main_locals requested S0 K0 r0 v0 T0 nprocs seed) c1"
    and "reachable nxt srandom (main_locals requested S0 K0 r0 v0 T0 nprocs seed) c2"
    and "joined (main_locals requested S0 K0 r0 v0 T0 nprocs seed) c2"
  shows "prices_after_join (main_locals requested S0 K0 r0 v0 T0 nprocs seed) c1 =
           prices_after_join (main_locals requested S0 K0 r0 v0 T0 nprocs seed) c2 \<and>
         prices_after_join (main_locals requested S0 K0 r0 v0 T0 nprocs seed) c1 =
           main_body nxt srandom requested S0 K0 r0 v0 T0 nprocs seed \<and>
         prices_after_join (main_locals requested S0 K0 r0 v0 T0 nprocs seed) c1 \<noteq> None"
  using interleaved_is_sequential [OF assms(1,2)] interleaved_is_sequential [OF assms(3,4)]
  by (simp add: main_body_def Let_def)

section \<open>Two schedules of a run with two workers\<close>

lemma example_locals_fields:
  "num_threads example_locals = 2" "total_sims example_locals = 2"
  "base_seed example_locals = 0"
  "S_loc example_locals = 100" "K_loc example_locals = 100" "r_loc example_locals = 0.05"
  "v_loc example_locals = 0.2" "T_loc example_locals = 1"
  by (simp_all add: example_locals_def main_locals_fields c_mod_nonneg)

lemma example_init:
  "init_params example_srandom example_locals i = example_params"
  by (simp add: init_params_def example_locals_fields example_params_def example_srandom_def
      c_div_nonneg)

lemma example_call:
  "monte_carlo_call_payoff_sum replay example_params =
     Some (spec_call_payoff example_params example_draw,
           example_params\<lparr>rng := [2147483648, 2147483648]\<rparr>)"
  by (simp add: call_sum_draws example_params_def example_sampler)

lemma example_put:
  "monte_carlo_put_payoff_sum replay
     (example_params\<lparr>rng := [2147483648, 2147483648], call_payoff_sum := c\<rparr>) =
     Some (spec_put_payoff example_params example_draw,
           example_params\<lparr>rng := [], call_payoff_sum := c\<rparr>)"
  by (simp add: put_sum_draws example_params_def example_sampler spec_put_payoff_def
      spec_S_terminal_def spec_S_adjust_def)

lemmas example_run_simps =
  create_step_def thread_step_def init_config_def example_init example_locals_fields
  example_call example_put

lemma schedule_a_runs:
  "run_schedule replay example_srandom example_locals schedule_a init_config \<noteq> None"
  "joined example_locals
     (the (run_schedule replay example_srandom example_locals schedule_a init_config))"
  by (simp_all add: schedule_a_def joined_def example_run_simps)

lemma schedule_b_runs:
  "run_schedule replay example_srandom example_locals schedule_b init_config \<noteq> None"
  "joined example_locals
     (the (run_schedule replay example_srandom example_locals schedule_b init_config))"
  by (simp_all add: schedule_b_def joined_def example_run_simps)

text \<open>After two moves the second thread exists in one schedule and not in the other.\<close>

lemma schedules_differ:
  "pc (the (run_schedule replay example_srandom example_locals (take 2 schedule_a) init_config)) 1
     = Some Started"
  "pc (the (run_schedule replay example_srandom example_locals (take 2 schedule_b) init_config)) 1
     = None"
  by (simp_all add: schedule_a_def schedule_b_def example_run_simps)

theorem pipeline_deterministic_witness:
  "reachable replay example_srandom example_locals
     (the (run_schedule replay example_srandom example_locals schedule_a init_config)) \<and>
   joined example_locals
     (the (run_schedule replay example_srandom example_locals schedule_a init_config)) \<and>
   reachable replay example_srandom example_locals
     (the (run_schedule replay example_srandom example_locals schedule_b init_config)) \<and>
   joined example_locals
     (the (run_schedule replay example_srandom example_locals schedule_b init_config)) \<and>
   prices_after_join example_locals
     (the (run_schedule replay example_srandom example_locals schedule_a init_config)) =
   prices_after_join example_locals
     (the (run_schedule replay example_srandom example_locals schedule_b init_config)) \<and>
   prices_after_join example_locals
     (the (run_schedule replay example_srandom example_locals schedule_a init_config)) =
   main_body replay example_srandom 2 100 100 0.05 0.2 1 2 0"
proof -
  let ?a = "the (run_schedule replay example_srandom example_locals schedule_a init_config)"
  let ?b = "the (run_schedule replay example_srandom example_locals schedule_b init_config)"
  have ra: "reachable replay example_srandom example_locals ?a"
    using schedule_a_runs(1) by (auto intro: run_schedule_reachable)
  have rb: "reachable replay example_srandom example_locals ?b"
    using schedule_b_runs(1) by (auto intro: run_schedule_reachable)
  note ja = schedule_a_runs(2) and jb = schedule_b_runs(2)
  note t = pipeline_deterministic [where requested = 2 and ?S0.0 = 100 and ?K0.0 = 100
      and ?r0.0 = "0.05" and ?v0.0 = "0.2" and ?T0.0 = 1 and nprocs = 2 and seed = 0,
      folded example_locals_def, OF ra ja rb jb]
  from t ra ja rb jb show ?thesis by blast
qed

section \<open>The prices after the join\<close>

text \<open>
  Claim C5. In every run that has passed the join loop, with a divisor other than zero,
  the prices are \<open>(total_call_sum / total_sims) * exp (- r * T)\<close> and
  \<open>(total_put_sum / total_sims) * exp (- r * T)\<close>, where the totals are the sums of the call
  and put sums of all cells, and the cells hold what the workers returned. The prices are
  a value of the joined configuration: \<open>prices_after_join\<close> gives nothing before the join.
\<close>

theorem final_prices_from_sums:
  assumes "reachable nxt srandom L c" and "joined L c" and "total_sims L \<noteq> 0"
  shows "\<exists>tps. those (map (cells c) [0..<created c]) = Some tps \<and>
           those (map (thread_pricing_wrapper nxt) (thread_params_init srandom L)) = Some tps \<and>
           length tps = nat (num_threads L) \<and>
           prices_after_join L c =
             Some (Finite ((\<Sum>p\<leftarrow>tps. call_payoff_sum p) / real_of_int (total_sims L) *
                           exp (- r_loc L * T_loc L)),
                   Finite ((\<Sum>p\<leftarrow>tps. put_payoff_sum p) / real_of_int (total_sims L) *
                           exp (- r_loc L * T_loc L)))"
proof -
  have inv: "config_inv nxt srandom L c" using assms(1) by (rule reachable_inv)
  have "those (map (cells c) [0..<created c]) \<noteq> None"
    using those_map_the [of "[0..<created c]" "cells c"] joined_cells(2) [OF inv assms(2)]
    by simp
  then obtain tps where tps: "those (map (cells c) [0..<created c]) = Some tps" by auto
  then have w: "those (map (thread_pricing_wrapper nxt) (thread_params_init srandom L)) = Some tps"
    using joined_cells_are_workers [OF inv assms(2)] by simp
  have "map (\<lambda>x. the (cells c x)) [0..<created c] = tps"
    using those_map_the [of "[0..<created c]" "cells c"] joined_cells(2) [OF inv assms(2)] tps
    by simp
  then have "length tps = created c" by auto
  moreover from assms(2) have "int (created c) = num_threads L" by (simp add: joined_def)
  ultimately have len: "length tps = nat (num_threads L)" by linarith
  have "prices_after_join L c = Some (final_prices L tps)"
    using assms(2) tps by (simp add: prices_after_join_def)
  with tps w len show ?thesis
    by (simp add: final_prices_formula [OF assms(3)])
qed

theorem final_prices_from_sums_witness:
  "reachable replay example_srandom example_locals
     (the (run_schedule replay example_srandom example_locals schedule_b init_config)) \<and>
   joined example_locals
     (the (run_schedule replay example_srandom example_locals schedule_b init_config)) \<and>
   total_sims example_locals \<noteq> 0 \<and>
   (\<exists>tps. those (map (thread_pricing_wrapper replay)
               (thread_params_init example_srandom example_locals)) = Some tps \<and>
      length tps = 2 \<and>
      prices_after_join example_locals
        (the (run_schedule replay example_srandom example_locals schedule_b init_config)) =
        Some (Finite ((\<Sum>p\<leftarrow>tps. call_payoff_sum p) / 2 * exp (- 0.05)),
              Finite ((\<Sum>p\<leftarrow>tps. put_payoff_sum p) / 2 * exp (- 0.05))))"
proof -
  let ?b = "the (run_schedule replay example_srandom example_locals schedule_b init_config)"
  have rb: "reachable replay example_srandom example_locals ?b"
    using schedule_b_runs(1) by (auto intro: run_schedule_reachable)
  note jb = schedule_b_runs(2)
  have nz: "total_sims example_locals \<noteq> 0" by (simp add: example_locals_fields)
  from final_prices_from_sums [OF rb jb nz] rb jb nz
  show ?thesis by (auto simp: example_locals_fields)
qed

section \<open>What a worker touches\<close>

lemma wrapper_result_shape:
  assumes "thread_pricing_wrapper nxt p = Some p'"
  shows "p' = p\<lparr>rng := rng p', call_payoff_sum := call_payoff_sum p',
                put_payoff_sum := put_payoff_sum p'\<rparr>"
  using assms by (auto simp: wrapper_draws split: option.splits)

lemma thread_step_others:
  assumes "thread_step nxt i c = Some c'" and "j \<noteq> i"
  shows "cells c' j = cells c j" and "pc c' j = pc c j"
  using assms by (auto elim!: thread_step_cases)

lemma thread_step_created:
  assumes "thread_step nxt i c = Some c'"
  shows "created c' = created c"
  using assms by (auto elim!: thread_step_cases)

lemma thread_step_reads_own_cell:
  assumes "thread_step nxt i c = Some c'" and "cells d i = cells c i" and "pc d i = pc c i"
  shows "\<exists>d'. thread_step nxt i d = Some d' \<and> cells d' i = cells c' i \<and> pc d' i = pc c' i"
  using assms(1)
proof (cases rule: thread_step_cases)
  case (call params s params1)
  with assms(2,3) show ?thesis by (simp add: thread_step_def)
next
  case (put params s params1)
  with assms(2,3) show ?thesis by (simp add: thread_step_def)
qed

text \<open>
  Claim C9. \<open>thread_pricing_wrapper\<close> returns its record with \<open>rng\<close>, \<open>call_payoff_sum\<close>
  and \<open>put_payoff_sum\<close> replaced and nothing else: \<open>num_sims\<close>, \<open>S\<close>, \<open>K\<close>, \<open>r\<close>, \<open>v\<close> and
  \<open>T\<close> are as before. A statement of thread \<open>i\<close> leaves every other cell and thread as
  it was, and what it writes to its own cell depends on no cell but its own.
\<close>

theorem wrapper_frame:
  "(thread_pricing_wrapper nxt p = Some p' \<longrightarrow>
      num_sims p' = num_sims p \<and> S p' = S p \<and> K p' = K p \<and> r p' = r p \<and> v p' = v p \<and>
      T p' = T p \<and>
      p' = p\<lparr>rng := rng p', call_payoff_sum := call_payoff_sum p',
               put_payoff_sum := put_payoff_sum p'\<rparr>) \<and>
   (thread_step nxt i c = Some c' \<and> j \<noteq> i \<longrightarrow>
      cells c' j = cells c j \<and> pc c' j = pc c j \<and> created c' = created c) \<and>
   (thread_step nxt i c = Some c' \<and> cells d i = cells c i \<and> pc d i = pc c i \<longrightarrow>
      (\<exists>d'. thread_step nxt i d = Some d' \<and> cells d' i = cells c' i \<and> pc d' i = pc c' i))"
proof (intro conjI impI)
  assume w: "thread_pricing_wrapper nxt p = Some p'"
  from wrapper_result_shape [OF w]
  show "p' = p\<lparr>rng := rng p', call_payoff_sum := call_payoff_sum p',
                put_payoff_sum := put_payoff_sum p'\<rparr>" .
  then have "num_sims p' = num_sims (p\<lparr>rng := rng p', call_payoff_sum := call_payoff_sum p',
                put_payoff_sum := put_payoff_sum p'\<rparr>)"
      "S p' = S (p\<lparr>rng := rng p', call_payoff_sum := call_payoff_sum p',
                put_payoff_sum := put_payoff_sum p'\<rparr>)"
      "K p' = K (p\<lparr>rng := rng p', call_payoff_sum := call_payoff_sum p',
                put_payoff_sum := put_payoff_sum p'\<rparr>)"
      "r p' = r (p\<lparr>rng := rng p', call_payoff_sum := call_payoff_sum p',
                put_payoff_sum := put_payoff_sum p'\<rparr>)"
      "v p' = v (p\<lparr>rng := rng p', call_payoff_sum := call_payoff_sum p',
                put_payoff_sum := put_payoff_sum p'\<rparr>)"
      "T p' = T (p\<lparr>rng := rng p', call_payoff_sum := call_payoff_sum p',
                put_payoff_sum := put_payoff_sum p'\<rparr>)"
    by simp_all
  then show "num_sims p' = num_sims p" "S p' = S p" "K p' = K p" "r p' = r p" "v p' = v p"
    "T p' = T p"
    by simp_all
next
  assume a: "thread_step nxt i c = Some c' \<and> j \<noteq> i"
  then show "cells c' j = cells c j" "pc c' j = pc c j" "created c' = created c"
    using thread_step_others [of nxt i c c' j] thread_step_created [of nxt i c c'] by simp_all
next
  assume a: "thread_step nxt i c = Some c' \<and> cells d i = cells c i \<and> pc d i = pc c i"
  then show "\<exists>d'. thread_step nxt i d = Some d' \<and> cells d' i = cells c' i \<and> pc d' i = pc c' i"
    by (auto intro: thread_step_reads_own_cell)
qed


theorem wrapper_frame_witness:
  "thread_pricing_wrapper replay example_params =
     Some (example_params\<lparr>rng := [],
             call_payoff_sum := spec_call_payoff example_params example_draw,
             put_payoff_sum := spec_put_payoff example_params example_draw\<rparr>) \<and>
   num_sims (the (thread_pricing_wrapper replay example_params)) = 1 \<and>
   S (the (thread_pricing_wrapper replay example_params)) = 100 \<and>
   thread_step replay 0
     (the (run_schedule replay example_srandom example_locals [Create, Create] init_config))
     \<noteq> None \<and>
   (0::nat) \<noteq> 1 \<and>
   cells (the (thread_step replay 0
       (the (run_schedule replay example_srandom example_locals [Create, Create] init_config)))) 1
     = Some example_params \<and>
   (\<exists>d'. thread_step replay 0
       (the (run_schedule replay example_srandom example_locals [Create] init_config)) = Some d' \<and>
      cells d' 0 =
      cells (the (thread_step replay 0
        (the (run_schedule replay example_srandom example_locals [Create, Create] init_config)))) 0)"
proof -
  let ?c = "the (run_schedule replay example_srandom example_locals [Create, Create] init_config)"
  let ?d = "the (run_schedule replay example_srandom example_locals [Create] init_config)"
  let ?c' = "the (thread_step replay 0 ?c)"
  have w: "thread_pricing_wrapper replay example_params =
     Some (example_params\<lparr>rng := [],
             call_payoff_sum := spec_call_payoff example_params example_draw,
             put_payoff_sum := spec_put_payoff example_params example_draw\<rparr>)"
    by (simp add: thread_pricing_wrapper_def example_call example_put)
  have st: "thread_step replay 0 ?c = Some ?c'"
    by (simp add: example_run_simps)
  have own: "cells ?d 0 = cells ?c 0" "pc ?d 0 = pc ?c 0"
    by (simp_all add: example_run_simps)
  have c1: "cells ?c 1 = Some example_params" by (simp add: example_run_simps)
  note t = wrapper_frame [where nxt = replay and p = example_params and i = 0 and c = ?c
      and c' = ?c' and j = 1 and d = ?d, unfolded w]
  from t st own c1 w show ?thesis
    by (auto simp: example_params_def)
qed

section \<open>The passes of the rejection loop\<close>

lemma sampler_unfold:
  "gaussian_box_muller nxt g =
     (if loop_again (pass_euclid_sq nxt g) then gaussian_box_muller nxt (two_draws nxt g)
      else Some (box_muller_value (uniform_pm1 (fst (nxt g))) (pass_euclid_sq nxt g),
                 two_draws nxt g))"
  by (subst gaussian_box_muller.simps)
    (simp add: pass_euclid_sq_def two_draws_def Let_def split: prod.splits)

lemma sampler_after_rejections:
  assumes "\<And>j. j < k \<Longrightarrow> loop_again (pass_euclid_sq nxt ((two_draws nxt ^^ j) g))"
  shows "gaussian_box_muller nxt g = gaussian_box_muller nxt ((two_draws nxt ^^ k) g)"
  using assms
proof (induction k)
  case 0
  show ?case by simp
next
  case (Suc k)
  have "gaussian_box_muller nxt g = gaussian_box_muller nxt ((two_draws nxt ^^ k) g)"
    using Suc.prems by (intro Suc.IH) simp
  also have "\<dots> = gaussian_box_muller nxt (two_draws nxt ((two_draws nxt ^^ k) g))"
    using Suc.prems [of k] by (subst sampler_unfold) simp
  finally show ?case by simp
qed

lemma sampler_first_accept:
  assumes "\<And>j. j < k \<Longrightarrow> loop_again (pass_euclid_sq nxt ((two_draws nxt ^^ j) g))"
    and "\<not> loop_again (pass_euclid_sq nxt ((two_draws nxt ^^ k) g))"
  shows "gaussian_box_muller nxt g =
           Some (box_muller_value (uniform_pm1 (fst (nxt ((two_draws nxt ^^ k) g))))
                   (pass_euclid_sq nxt ((two_draws nxt ^^ k) g)),
                 (two_draws nxt ^^ Suc k) g)"
proof -
  have "gaussian_box_muller nxt g = gaussian_box_muller nxt ((two_draws nxt ^^ k) g)"
    using assms(1) by (rule sampler_after_rejections)
  also have "\<dots> = Some (box_muller_value (uniform_pm1 (fst (nxt ((two_draws nxt ^^ k) g))))
                   (pass_euclid_sq nxt ((two_draws nxt ^^ k) g)),
                 (two_draws nxt ^^ Suc k) g)"
    using assms(2) by (subst sampler_unfold) simp
  finally show ?thesis .
qed

lemma sampler_returns_accept:
  assumes "gaussian_box_muller nxt g = Some zg"
  shows "\<exists>k. \<not> loop_again (pass_euclid_sq nxt ((two_draws nxt ^^ k) g))"
proof (rule gaussian_box_muller.raw_induct
    [where P = "\<lambda>nxt g z. \<exists>k. \<not> loop_again (pass_euclid_sq nxt ((two_draws nxt ^^ k) g))",
     OF _ assms], goal_cases)
  case (1 sampler nxt g zg)
  show ?case
  proof (cases "loop_again (pass_euclid_sq nxt g)")
    case True
    with 1(2) have "sampler nxt (two_draws nxt g) = Some zg"
      by (simp add: pass_euclid_sq_def two_draws_def Let_def split: prod.splits)
    from 1(1) [OF this] obtain k where
      "\<not> loop_again (pass_euclid_sq nxt ((two_draws nxt ^^ k) (two_draws nxt g)))" ..
    then have "\<not> loop_again (pass_euclid_sq nxt ((two_draws nxt ^^ Suc k) g))"
      by (simp add: funpow_swap1)
    then show ?thesis ..
  next
    case False
    then have "\<not> loop_again (pass_euclid_sq nxt ((two_draws nxt ^^ 0) g))" by simp
    then show ?thesis ..
  qed
qed

lemma sampler_returns_iff:
  "gaussian_box_muller nxt g \<noteq> None \<longleftrightarrow>
     (\<exists>k. \<not> loop_again (pass_euclid_sq nxt ((two_draws nxt ^^ k) g)))"
proof
  assume "gaussian_box_muller nxt g \<noteq> None"
  then obtain zg where "gaussian_box_muller nxt g = Some zg" by auto
  then show "\<exists>k. \<not> loop_again (pass_euclid_sq nxt ((two_draws nxt ^^ k) g))"
    by (rule sampler_returns_accept)
next
  let ?A = "\<lambda>k. \<not> loop_again (pass_euclid_sq nxt ((two_draws nxt ^^ k) g))"
  assume "\<exists>k. ?A k"
  then have acc: "?A (LEAST k. ?A k)" by (rule LeastI_ex)
  have rej: "\<And>j. j < (LEAST k. ?A k) \<Longrightarrow>
      loop_again (pass_euclid_sq nxt ((two_draws nxt ^^ j) g))"
    using not_less_Least by blast
  show "gaussian_box_muller nxt g \<noteq> None"
    using sampler_first_accept [of "LEAST k. ?A k" nxt g, OF rej acc] by simp
qed



section \<open>The acceptance test of the sampler\<close>



lemma zero_pass_rejected: "loop_again (sum_sq (uniform_pm1 0) (uniform_pm1 0))"
  using sum_sq_large [OF uniform_pm1_examples(6) uniform_pm1_examples(6)]
  by (simp add: loop_again_def)


section \<open>Which draws the call and the put payoffs use\<close>

lemma box_muller_value_sign:
  assumes "0 < s" "s < 1"
  shows "0 < x \<Longrightarrow> 0 < box_muller_value x s" and "x < 0 \<Longrightarrow> box_muller_value x s < 0"
proof -
  from assms have "ln s < 0" by simp
  with assms have "0 < - 2 * ln s / s" by (simp add: field_simps)
  then have pos: "0 < sqrt (- 2 * ln s / s)" by simp
  show "0 < x \<Longrightarrow> 0 < box_muller_value x s"
    using pos by (simp add: box_muller_value_def)
  show "x < 0 \<Longrightarrow> box_muller_value x s < 0"
    using pos by (simp add: box_muller_value_def mult_neg_pos)
qed

lemma crossed_passes_accepted:
  "\<not> loop_again (sum_sq (uniform_pm1 3221225472) (uniform_pm1 3221225472))"
  "\<not> loop_again (sum_sq (uniform_pm1 1073741824) (uniform_pm1 1073741824))"
  using sum_sq_small [OF uniform_pm1_examples(3) uniform_pm1_examples(3)]
    sum_sq_small [OF uniform_pm1_examples(5) uniform_pm1_examples(5)]
  by (simp_all add: loop_again_def)

lemma up_draw_positive: "0 < up_draw"
  unfolding up_draw_def
proof (rule box_muller_value_sign(1))
  show "0 < sum_sq (uniform_pm1 3221225472) (uniform_pm1 3221225472)"
    by (rule sum_sq_positive) (rule uniform_pm1_nonzero)
  show "sum_sq (uniform_pm1 3221225472) (uniform_pm1 3221225472) < 1"
    by (rule sum_sq_small [OF uniform_pm1_examples(3) uniform_pm1_examples(3)])
  show "0 < uniform_pm1 3221225472" by (rule uniform_pm1_examples(2))
qed

lemma down_draw_negative: "down_draw < 0"
  unfolding down_draw_def
proof (rule box_muller_value_sign(2))
  show "0 < sum_sq (uniform_pm1 1073741824) (uniform_pm1 1073741824)"
    by (rule sum_sq_positive) (rule uniform_pm1_nonzero)
  show "sum_sq (uniform_pm1 1073741824) (uniform_pm1 1073741824) < 1"
    by (rule sum_sq_small [OF uniform_pm1_examples(5) uniform_pm1_examples(5)])
  show "uniform_pm1 1073741824 < 0" by (rule uniform_pm1_examples(4))
qed

lemma crossed_sampler:
  "gaussian_box_muller replay (3221225472 # 3221225472 # us) = Some (up_draw, us)"
  "gaussian_box_muller replay (1073741824 # 1073741824 # us) = Some (down_draw, us)"
  by (simp_all only: replay_sampler crossed_passes_accepted if_False up_draw_def down_draw_def)

lemma crossed_terminal: "spec_S_terminal crossed_params g = 100 * exp g"
  by (simp add: spec_S_terminal_def spec_S_adjust_def crossed_params_def)

lemma crossed_wrapper:
  "thread_pricing_wrapper replay crossed_params =
     Some (crossed_params\<lparr>rng := [],
             call_payoff_sum := spec_call_payoff crossed_params up_draw,
             put_payoff_sum := spec_put_payoff crossed_params down_draw\<rparr>)"
  by (simp add: wrapper_draws crossed_params_def crossed_sampler numeral_2_eq_2)


text \<open>
  Claim C2, at the input where it fails. A worker with one path: the call payoff comes from
  the first draw of the stream and the put payoff from the second. The two draws differ,
  the put payoff differs from the put payoff at the call's draw, and both payoffs of the
  one path are positive, which no single terminal price gives.
\<close>

theorem put_uses_a_later_draw:
  "thread_pricing_wrapper replay crossed_params =
     Some (crossed_params\<lparr>rng := [],
             call_payoff_sum := spec_call_payoff crossed_params up_draw,
             put_payoff_sum := spec_put_payoff crossed_params down_draw\<rparr>) \<and>
   num_sims crossed_params = 1 \<and>
   up_draw \<noteq> down_draw \<and>
   spec_put_payoff crossed_params down_draw \<noteq> spec_put_payoff crossed_params up_draw \<and>
   0 < spec_call_payoff crossed_params up_draw \<and>
   0 < spec_put_payoff crossed_params down_draw"
proof -
  have up: "1 < exp up_draw" using up_draw_positive by simp
  have down: "exp down_draw < 1" using down_draw_negative by simp
  have k: "K crossed_params = 100" by (simp add: crossed_params_def)
  have c: "0 < spec_call_payoff crossed_params up_draw"
    using up by (simp add: spec_call_payoff_def crossed_terminal k)
  have p: "0 < spec_put_payoff crossed_params down_draw"
    using down by (simp add: spec_put_payoff_def crossed_terminal k)
  have p0: "spec_put_payoff crossed_params up_draw = 0"
    using up by (simp add: spec_put_payoff_def crossed_terminal k)
  have ne: "up_draw \<noteq> down_draw" using up_draw_positive down_draw_negative by simp
  have n: "num_sims crossed_params = 1" by (simp add: crossed_params_def)
  from crossed_wrapper n ne c p p0 show ?thesis by simp
qed

text \<open>
  Claim C2, amended. A worker with \<open>n\<close> paths takes \<open>2 * n\<close> draws from its stream: the
  call loop sums the call payoffs of the first \<open>n\<close> draws, and the put loop, which starts
  from the generator state the call loop left, sums the put payoffs of the next \<open>n\<close>
  draws. Path \<open>i\<close> has its call payoff from draw \<open>i\<close> and its put payoff from draw
  \<open>n + i\<close>.
\<close>

theorem call_and_put_draws:
  assumes "gaussian_draws nxt (nat (num_sims p) + nat (num_sims p)) (rng p) = Some (gs, g')"
  shows "thread_pricing_wrapper nxt p =
           Some (p\<lparr>rng := g',
                   call_payoff_sum := (\<Sum>g\<leftarrow>take (nat (num_sims p)) gs. spec_call_payoff p g),
                   put_payoff_sum := (\<Sum>g\<leftarrow>drop (nat (num_sims p)) gs. spec_put_payoff p g)\<rparr>) \<and>
         length (take (nat (num_sims p)) gs) = nat (num_sims p) \<and>
         length (drop (nat (num_sims p)) gs) = nat (num_sims p)"
  using assms gaussian_draws_length [OF assms] by (simp add: wrapper_draws)

theorem call_and_put_draws_witness:
  "gaussian_draws replay (nat (num_sims crossed_params) + nat (num_sims crossed_params))
     (rng crossed_params) = Some ([up_draw, down_draw], []) \<and>
   thread_pricing_wrapper replay crossed_params =
     Some (crossed_params\<lparr>rng := [],
             call_payoff_sum := spec_call_payoff crossed_params up_draw,
             put_payoff_sum := spec_put_payoff crossed_params down_draw\<rparr>)"
proof -
  have d: "gaussian_draws replay (nat (num_sims crossed_params) + nat (num_sims crossed_params))
     (rng crossed_params) = Some ([up_draw, down_draw], [])"
    by (simp add: crossed_params_def crossed_sampler numeral_2_eq_2)
  have n: "nat (num_sims crossed_params) = 1" by (simp add: crossed_params_def)
  from call_and_put_draws [OF d] d show ?thesis by (simp add: n)
qed

section \<open>The accumulators of the payoff loops\<close>

lemma spec_payoff_num_sims [simp]:
  "spec_call_payoff (p\<lparr>num_sims := k\<rparr>) = spec_call_payoff p"
  "spec_put_payoff (p\<lparr>num_sims := k\<rparr>) = spec_put_payoff p"
  by (simp_all add: fun_eq_iff spec_call_payoff_def spec_put_payoff_def spec_S_terminal_def
      spec_S_adjust_def)

lemma spec_payoff_nonneg: "0 \<le> spec_call_payoff p g" "0 \<le> spec_put_payoff p g"
  by (simp_all add: spec_call_payoff_def spec_put_payoff_def)

lemma sum_list_map_nonneg: "(\<And>x. 0 \<le> f x) \<Longrightarrow> (0::real) \<le> (\<Sum>x\<leftarrow>xs. f x)"
  by (induction xs) simp_all

lemma spec_payoff_sums_nonneg:
  "0 \<le> (\<Sum>g\<leftarrow>gs. spec_call_payoff p g)" "0 \<le> (\<Sum>g\<leftarrow>gs. spec_put_payoff p g)"
  by (simp_all add: sum_list_map_nonneg spec_payoff_nonneg)

lemma call_loop_monotone:
  assumes "call_loop nxt Sa i acc p = Some (s, p')"
  shows "acc \<le> s"
proof -
  from assms obtain gs where
    "s = acc + (\<Sum>g\<leftarrow>gs. MAX_macro (Sa * exp (sqrt (v p * v p * T p) * g) - K p) 0)"
    by (auto simp: call_loop_draws split: option.splits)
  moreover have "0 \<le> (\<Sum>g\<leftarrow>gs. MAX_macro (Sa * exp (sqrt (v p * v p * T p) * g) - K p) 0)"
    by (simp add: sum_list_map_nonneg MAX_macro_nonneg)
  ultimately show ?thesis by simp
qed

lemma put_loop_monotone:
  assumes "put_loop nxt Sa i acc p = Some (s, p')"
  shows "acc \<le> s"
proof -
  from assms obtain gs where
    "s = acc + (\<Sum>g\<leftarrow>gs. MAX_macro (K p - Sa * exp (sqrt (v p * v p * T p) * g)) 0)"
    by (auto simp: put_loop_draws split: option.splits)
  moreover have "0 \<le> (\<Sum>g\<leftarrow>gs. MAX_macro (K p - Sa * exp (sqrt (v p * v p * T p) * g)) 0)"
    by (simp add: sum_list_map_nonneg MAX_macro_nonneg)
  ultimately show ?thesis by simp
qed

lemma draws_one_more:
  assumes "gaussian_draws nxt n g = Some (gs, g1)" "gaussian_draws nxt (Suc n) g = Some (hs, g2)"
  shows "\<exists>x. hs = gs @ [x]"
proof -
  have "gaussian_draws nxt (n + 1) g = Some (hs, g2)" using assms(2) by simp
  then show ?thesis
    unfolding gaussian_draws_add using assms(1) by (auto split: option.splits)
qed

lemma call_sum_one_more_pass:
  assumes "monte_carlo_call_payoff_sum nxt (p\<lparr>num_sims := k\<rparr>) = Some (a, p1)"
    and "monte_carlo_call_payoff_sum nxt (p\<lparr>num_sims := k + 1\<rparr>) = Some (b, p2)"
  shows "0 \<le> a \<and> a \<le> b"
proof -
  from assms(1) obtain gs g1 where
    gs: "gaussian_draws nxt (nat k) (rng p) = Some (gs, g1)"
    and a: "a = (\<Sum>g\<leftarrow>gs. spec_call_payoff p g)"
    by (auto simp: call_sum_draws split: option.splits)
  from assms(2) obtain hs g2 where
    hs: "gaussian_draws nxt (nat (k + 1)) (rng p) = Some (hs, g2)"
    and b: "b = (\<Sum>g\<leftarrow>hs. spec_call_payoff p g)"
    by (auto simp: call_sum_draws split: option.splits)
  have a0: "0 \<le> a" unfolding a by (rule spec_payoff_sums_nonneg)
  show ?thesis
  proof (cases "k < 0")
    case True
    with gs hs have "gs = []" "hs = []" by simp_all
    with a b show ?thesis by simp
  next
    case False
    then have "nat (k + 1) = Suc (nat k)" by simp
    with draws_one_more [OF gs] hs obtain x where "hs = gs @ [x]" by auto
    with a b a0 spec_payoff_nonneg(1) [of p x] show ?thesis by simp
  qed
qed

lemma put_sum_one_more_pass:
  assumes "monte_carlo_put_payoff_sum nxt (p\<lparr>num_sims := k\<rparr>) = Some (a, p1)"
    and "monte_carlo_put_payoff_sum nxt (p\<lparr>num_sims := k + 1\<rparr>) = Some (b, p2)"
  shows "0 \<le> a \<and> a \<le> b"
proof -
  from assms(1) obtain gs g1 where
    gs: "gaussian_draws nxt (nat k) (rng p) = Some (gs, g1)"
    and a: "a = (\<Sum>g\<leftarrow>gs. spec_put_payoff p g)"
    by (auto simp: put_sum_draws split: option.splits)
  from assms(2) obtain hs g2 where
    hs: "gaussian_draws nxt (nat (k + 1)) (rng p) = Some (hs, g2)"
    and b: "b = (\<Sum>g\<leftarrow>hs. spec_put_payoff p g)"
    by (auto simp: put_sum_draws split: option.splits)
  have a0: "0 \<le> a" unfolding a by (rule spec_payoff_sums_nonneg)
  show ?thesis
  proof (cases "k < 0")
    case True
    with gs hs have "gs = []" "hs = []" by simp_all
    with a b show ?thesis by simp
  next
    case False
    then have "nat (k + 1) = Suc (nat k)" by simp
    with draws_one_more [OF gs] hs obtain x where "hs = gs @ [x]" by auto
    with a b a0 spec_payoff_nonneg(2) [of p x] show ?thesis by simp
  qed
qed

lemma call_loop_prefix:
  assumes "0 \<le> k" "k \<le> num_sims p"
  shows "call_loop nxt Sa 0 0 p =
           (case call_loop nxt Sa 0 0 (p\<lparr>num_sims := k\<rparr>) of
              None \<Rightarrow> None
            | Some (a, p1) \<Rightarrow> call_loop nxt Sa k a (p1\<lparr>num_sims := num_sims p\<rparr>))"
proof -
  from assms have "nat (num_sims p) = nat k + nat (num_sims p - k)" by simp
  then have "gaussian_draws nxt (nat (num_sims p)) (rng p) =
               gaussian_draws nxt (nat k + nat (num_sims p - k)) (rng p)"
    by simp
  then show ?thesis
    by (simp add: call_loop_draws gaussian_draws_add add.assoc split: option.splits)
qed

lemma put_loop_prefix:
  assumes "0 \<le> k" "k \<le> num_sims p"
  shows "put_loop nxt Sa 0 0 p =
           (case put_loop nxt Sa 0 0 (p\<lparr>num_sims := k\<rparr>) of
              None \<Rightarrow> None
            | Some (a, p1) \<Rightarrow> put_loop nxt Sa k a (p1\<lparr>num_sims := num_sims p\<rparr>))"
proof -
  from assms have "nat (num_sims p) = nat k + nat (num_sims p - k)" by simp
  then have "gaussian_draws nxt (nat (num_sims p)) (rng p) =
               gaussian_draws nxt (nat k + nat (num_sims p - k)) (rng p)"
    by simp
  then show ?thesis
    by (simp add: put_loop_draws gaussian_draws_add add.assoc split: option.splits)
qed


text \<open>
  Claim C6. Both accumulators start at 0: a loop of no pass returns 0. The accumulator
  after \<open>k\<close> passes is what the loop with bound \<open>k\<close> returns, since the loop with a larger
  bound first does those \<open>k\<close> passes and goes on from their accumulator. That value is
  never negative and never above the value after \<open>k + 1\<close> passes; and from any state of a
  loop on, the result is at least the accumulator of that state.
\<close>

theorem accumulators_nonneg_monotone:
  "monte_carlo_call_payoff_sum nxt (p\<lparr>num_sims := 0\<rparr>) = Some (0, p\<lparr>num_sims := 0\<rparr>) \<and>
   monte_carlo_put_payoff_sum nxt (p\<lparr>num_sims := 0\<rparr>) = Some (0, p\<lparr>num_sims := 0\<rparr>) \<and>
   (0 \<le> k \<and> k \<le> num_sims p \<longrightarrow>
      monte_carlo_call_payoff_sum nxt p =
        (case monte_carlo_call_payoff_sum nxt (p\<lparr>num_sims := k\<rparr>) of
           None \<Rightarrow> None
         | Some (a, p1) \<Rightarrow> call_loop nxt (spec_S_adjust p) k a (p1\<lparr>num_sims := num_sims p\<rparr>)) \<and>
      monte_carlo_put_payoff_sum nxt p =
        (case monte_carlo_put_payoff_sum nxt (p\<lparr>num_sims := k\<rparr>) of
           None \<Rightarrow> None
         | Some (a, p1) \<Rightarrow> put_loop nxt (spec_S_adjust p) k a (p1\<lparr>num_sims := num_sims p\<rparr>))) \<and>
   (monte_carlo_call_payoff_sum nxt (p\<lparr>num_sims := k\<rparr>) = Some (a, p1) \<and>
    monte_carlo_call_payoff_sum nxt (p\<lparr>num_sims := k + 1\<rparr>) = Some (b, p2) \<longrightarrow>
      0 \<le> a \<and> a \<le> b) \<and>
   (monte_carlo_put_payoff_sum nxt (p\<lparr>num_sims := k\<rparr>) = Some (c, p3) \<and>
    monte_carlo_put_payoff_sum nxt (p\<lparr>num_sims := k + 1\<rparr>) = Some (d, p4) \<longrightarrow>
      0 \<le> c \<and> c \<le> d) \<and>
   (call_loop nxt Sa i acc p = Some (s, p') \<longrightarrow> acc \<le> s) \<and>
   (put_loop nxt Sa i acc p = Some (t, p'') \<longrightarrow> acc \<le> t)"
proof (intro conjI impI)
  show "monte_carlo_call_payoff_sum nxt (p\<lparr>num_sims := 0\<rparr>) = Some (0, p\<lparr>num_sims := 0\<rparr>)"
    by (simp add: call_sum_draws)
  show "monte_carlo_put_payoff_sum nxt (p\<lparr>num_sims := 0\<rparr>) = Some (0, p\<lparr>num_sims := 0\<rparr>)"
    by (simp add: put_sum_draws)
next
  assume k: "0 \<le> k \<and> k \<le> num_sims p"
  then show "monte_carlo_call_payoff_sum nxt p =
        (case monte_carlo_call_payoff_sum nxt (p\<lparr>num_sims := k\<rparr>) of
           None \<Rightarrow> None
         | Some (a, p1) \<Rightarrow> call_loop nxt (spec_S_adjust p) k a (p1\<lparr>num_sims := num_sims p\<rparr>))"
    using call_loop_prefix [where k = k and p = p and nxt = nxt and Sa = "spec_S_adjust p"]
    by (simp add: monte_carlo_call_payoff_sum_def spec_S_adjust_def)
  from k show "monte_carlo_put_payoff_sum nxt p =
        (case monte_carlo_put_payoff_sum nxt (p\<lparr>num_sims := k\<rparr>) of
           None \<Rightarrow> None
         | Some (a, p1) \<Rightarrow> put_loop nxt (spec_S_adjust p) k a (p1\<lparr>num_sims := num_sims p\<rparr>))"
    using put_loop_prefix [where k = k and p = p and nxt = nxt and Sa = "spec_S_adjust p"]
    by (simp add: monte_carlo_put_payoff_sum_def spec_S_adjust_def)
next
  assume h: "monte_carlo_call_payoff_sum nxt (p\<lparr>num_sims := k\<rparr>) = Some (a, p1) \<and>
    monte_carlo_call_payoff_sum nxt (p\<lparr>num_sims := k + 1\<rparr>) = Some (b, p2)"
  then show "0 \<le> a" "a \<le> b"
    using call_sum_one_more_pass [where nxt = nxt and p = p and k = k and a = a and b = b]
    by simp_all
next
  assume h: "monte_carlo_put_payoff_sum nxt (p\<lparr>num_sims := k\<rparr>) = Some (c, p3) \<and>
    monte_carlo_put_payoff_sum nxt (p\<lparr>num_sims := k + 1\<rparr>) = Some (d, p4)"
  then show "0 \<le> c" "c \<le> d"
    using put_sum_one_more_pass [where nxt = nxt and p = p and k = k and a = c and b = d]
    by simp_all
next
  assume "call_loop nxt Sa i acc p = Some (s, p')"
  then show "acc \<le> s" by (rule call_loop_monotone)
next
  assume "put_loop nxt Sa i acc p = Some (t, p'')"
  then show "acc \<le> t" by (rule put_loop_monotone)
qed


lemma example_put_first:
  "monte_carlo_put_payoff_sum replay example_params =
     Some (spec_put_payoff example_params example_draw,
           example_params\<lparr>rng := [2147483648, 2147483648]\<rparr>)"
  by (simp add: put_sum_draws example_params_def example_sampler)

theorem accumulators_nonneg_monotone_witness:
  "(0::int) \<le> 0 \<and> 0 \<le> num_sims example_params \<and>
   monte_carlo_call_payoff_sum replay (example_params\<lparr>num_sims := 0\<rparr>) =
     Some (0, example_params\<lparr>num_sims := 0\<rparr>) \<and>
   monte_carlo_call_payoff_sum replay (example_params\<lparr>num_sims := 0 + 1\<rparr>) =
     Some (spec_call_payoff example_params example_draw,
           example_params\<lparr>rng := [2147483648, 2147483648]\<rparr>) \<and>
   0 \<le> spec_call_payoff example_params example_draw \<and>
   monte_carlo_put_payoff_sum replay (example_params\<lparr>num_sims := 0\<rparr>) =
     Some (0, example_params\<lparr>num_sims := 0\<rparr>) \<and>
   monte_carlo_put_payoff_sum replay (example_params\<lparr>num_sims := 0 + 1\<rparr>) =
     Some (spec_put_payoff example_params example_draw,
           example_params\<lparr>rng := [2147483648, 2147483648]\<rparr>) \<and>
   0 \<le> spec_put_payoff example_params example_draw \<and>
   call_loop replay (spec_S_adjust example_params) 0 0 example_params =
     Some (spec_call_payoff example_params example_draw,
           example_params\<lparr>rng := [2147483648, 2147483648]\<rparr>) \<and>
   put_loop replay (spec_S_adjust example_params) 0 0 example_params =
     Some (spec_put_payoff example_params example_draw,
           example_params\<lparr>rng := [2147483648, 2147483648]\<rparr>)"
proof -
  have one: "example_params\<lparr>num_sims := 0 + 1\<rparr> = example_params"
    by (simp add: example_params_def)
  have n: "0 \<le> num_sims example_params" by (simp add: example_params_def)
  have cl: "call_loop replay (spec_S_adjust example_params) 0 0 example_params =
     Some (spec_call_payoff example_params example_draw,
           example_params\<lparr>rng := [2147483648, 2147483648]\<rparr>)"
    using example_call by (simp add: monte_carlo_call_payoff_sum_def spec_S_adjust_def)
  have pl: "put_loop replay (spec_S_adjust example_params) 0 0 example_params =
     Some (spec_put_payoff example_params example_draw,
           example_params\<lparr>rng := [2147483648, 2147483648]\<rparr>)"
    using example_put_first by (simp add: monte_carlo_put_payoff_sum_def spec_S_adjust_def)
  note t = accumulators_nonneg_monotone [where nxt = replay and p = example_params and k = 0
      and a = 0 and ?p1.0 = "example_params\<lparr>num_sims := 0\<rparr>"
      and b = "spec_call_payoff example_params example_draw"
      and ?p2.0 = "example_params\<lparr>rng := [2147483648, 2147483648]\<rparr>"
      and c = 0 and ?p3.0 = "example_params\<lparr>num_sims := 0\<rparr>"
      and d = "spec_put_payoff example_params example_draw"
      and ?p4.0 = "example_params\<lparr>rng := [2147483648, 2147483648]\<rparr>"
      and Sa = "spec_S_adjust example_params" and i = 0 and acc = 0
      and s = "spec_call_payoff example_params example_draw"
      and p' = "example_params\<lparr>rng := [2147483648, 2147483648]\<rparr>"
      and t = "spec_put_payoff example_params example_draw"
      and p'' = "example_params\<lparr>rng := [2147483648, 2147483648]\<rparr>"]
  from t n cl pl example_call example_put_first show ?thesis
    unfolding one by (elim conjE) simp
qed

section \<open>Trip counts of the payoff loops\<close>

text \<open>
  A payoff loop returns exactly when the \<open>n\<close> successive sampler calls return, \<open>n\<close> being
  the assigned count (none for a count below 1), and on return the generator stands where
  exactly \<open>n\<close> sampler calls leave it.
\<close>

lemma loops_return_with_draws:
  "(monte_carlo_call_payoff_sum nxt p \<noteq> None \<longleftrightarrow>
      gaussian_draws nxt (nat (num_sims p)) (rng p) \<noteq> None) \<and>
   (monte_carlo_put_payoff_sum nxt p \<noteq> None \<longleftrightarrow>
      gaussian_draws nxt (nat (num_sims p)) (rng p) \<noteq> None) \<and>
   (monte_carlo_call_payoff_sum nxt p = Some (s, p') \<longrightarrow>
      (\<exists>gs. gaussian_draws nxt (nat (num_sims p)) (rng p) = Some (gs, rng p') \<and>
            length gs = nat (num_sims p))) \<and>
   (monte_carlo_put_payoff_sum nxt p = Some (t, p'') \<longrightarrow>
      (\<exists>gs. gaussian_draws nxt (nat (num_sims p)) (rng p) = Some (gs, rng p'') \<and>
            length gs = nat (num_sims p)))"
proof (intro conjI impI)
  show "(monte_carlo_call_payoff_sum nxt p \<noteq> None) =
          (gaussian_draws nxt (nat (num_sims p)) (rng p) \<noteq> None)"
    by (auto simp: call_sum_draws split: option.splits)
  show "(monte_carlo_put_payoff_sum nxt p \<noteq> None) =
          (gaussian_draws nxt (nat (num_sims p)) (rng p) \<noteq> None)"
    by (auto simp: put_sum_draws split: option.splits)
next
  assume "monte_carlo_call_payoff_sum nxt p = Some (s, p')"
  then show "\<exists>gs. gaussian_draws nxt (nat (num_sims p)) (rng p) = Some (gs, rng p') \<and>
            length gs = nat (num_sims p)"
    by (auto simp: call_sum_draws split: option.splits dest: gaussian_draws_length)
next
  assume "monte_carlo_put_payoff_sum nxt p = Some (t, p'')"
  then show "\<exists>gs. gaussian_draws nxt (nat (num_sims p)) (rng p) = Some (gs, rng p'') \<and>
            length gs = nat (num_sims p)"
    by (auto simp: put_sum_draws split: option.splits dest: gaussian_draws_length)
qed

text \<open>
  The rejection loop has no bound on its passes: after \<open>m\<close> rejected passes, for any
  \<open>m\<close>, an accepted pass still gives the result. It is not left on every stream: on a
  stream of zero words every pass is rejected. Whether it is left on the stream of
  \<open>pcg32_random_r\<close> depends on that generator, which is a parameter here.
\<close>

lemma sampler_after_zero_passes:
  "gaussian_box_muller replay (replicate (2 * m) 0 @ us) = gaussian_box_muller replay us"
proof (induction m)
  case 0
  show ?case by simp
next
  case (Suc m)
  have "replicate (2 * Suc m) 0 @ us = 0 # 0 # (replicate (2 * m) (0::uint32_t) @ us)" by simp
  then show ?case
    using Suc.IH by (simp only: replay_sampler zero_pass_rejected if_True)
qed

lemma sampler_unbounded_rejections:
  "gaussian_box_muller replay (replicate (2 * m) 0 @ [2147483648, 2147483648]) =
     Some (example_draw, [])"
  by (simp only: sampler_after_zero_passes example_sampler)

lemma replay_empty_passes:
  "(two_draws replay ^^ k) [] = []"
  by (induction k) (simp_all add: two_draws_def)

lemma sampler_never_returns_on_zeros: "gaussian_box_muller replay [] = None"
proof -
  have "pass_euclid_sq replay [] = sum_sq (uniform_pm1 0) (uniform_pm1 0)"
    by (simp add: pass_euclid_sq_def Let_def)
  then have "\<And>k. loop_again (pass_euclid_sq replay ((two_draws replay ^^ k) []))"
    using zero_pass_rejected by (simp add: replay_empty_passes)
  then show ?thesis
    using sampler_returns_iff [of replay "[]"] by (cases "gaussian_box_muller replay []") auto
qed

end
